theory Spec2Isabelle
  imports Main
begin

section \<open>Domains: sequences of closed integer intervals\<close>

text \<open>
  A domain of fd.js is a JavaScript array of two-element arrays \<^verbatim>\<open>[lo, hi]\<close>.
  The bounds are JavaScript numbers holding integers; they are modelled as
  unbounded integers (every bound the solver produces lies in \<open>[0, FD_SUP]\<close>,
  far inside the range where a double is exact).
\<close>

type_synonym interval = "int \<times> int"
type_synonym domain = "interval list"

definition FD_SUP :: int where
  "FD_SUP = 100000000"

text \<open>The set of integers a domain stands for.\<close>

definition dom_set :: "domain \<Rightarrow> int set" where
  "dom_set d = (\<Union>i \<in> set d. {fst i .. snd i})"

subsection \<open>simplify_domain\<close>

text \<open>
  The first loop of \<^verbatim>\<open>simplify_domain\<close>: it walks the intervals after the
  first, remembering the right end \<open>prevR\<close> of the one before, and breaks at
  the first interval that is empty or does not start (and end) to the right
  of \<open>prevR\<close>. The result is \<open>True\<close> when the loop ran to the end
  (\<^verbatim>\<open>i >= len\<close>).
\<close>

fun simplify_scan :: "int \<Rightarrow> domain \<Rightarrow> bool" where
  "simplify_scan prevR [] = True"
| "simplify_scan prevR (next # rest) =
     (if snd next < fst next \<or> fst next \<le> prevR \<or> snd next \<le> prevR then False
      else simplify_scan (snd next) rest)"

text \<open>
  The second loop, over the sorted array: \<open>prev\<close> is the interval pushed
  last, whose right end is overwritten when the next interval starts at or
  before it.
\<close>

fun simplify_merge :: "interval \<Rightarrow> domain \<Rightarrow> domain" where
  "simplify_merge prev [] = [prev]"
| "simplify_merge prev (next # rest) =
     (if snd prev \<ge> fst next
      then simplify_merge (fst prev, max (snd prev) (snd next)) rest
      else prev # simplify_merge next rest)"

text \<open>
  \<^verbatim>\<open>d.sort(function (d1, d2) { return d1[0] - d2[0]; })\<close> is modelled by the
  stable sort on the left ends.
\<close>

definition simplify_domain :: "domain \<Rightarrow> domain" where
  "simplify_domain d =
     (case d of
        [] \<Rightarrow> d
      | [x] \<Rightarrow> (if snd x < fst x then [] else d)
      | x # rest \<Rightarrow>
          (if snd x \<ge> fst x \<and> simplify_scan (snd x) rest then d
           else (case sort_key fst d of
                   [] \<Rightarrow> []
                 | s # ss \<Rightarrow> simplify_merge s ss)))"

text \<open>
  Canonical form with a required distance: every interval is non-empty and
  each interval ends more than \<open>g\<close> before the next one starts, that is
  \<open>hi + g < lo'\<close>. The specification asks for \<open>g = 1\<close> (neither overlapping
  nor touching); \<open>g = 0\<close> allows two intervals to touch.
\<close>

fun separated :: "int \<Rightarrow> domain \<Rightarrow> bool" where
  "separated g [] = True"
| "separated g [i] = (fst i \<le> snd i)"
| "separated g (i # j # rest) =
     (fst i \<le> snd i \<and> snd i + g < fst j \<and> separated g (j # rest))"

fun nonempty_intervals :: "domain \<Rightarrow> bool" where
  "nonempty_intervals [] = True"
| "nonempty_intervals (i # rest) = (fst i \<le> snd i \<and> nonempty_intervals rest)"

subsection \<open>domain_intersection\<close>

text \<open>
  \<^verbatim>\<open>domain_intersection(dom1, dom2, r)\<close> takes an optional array \<open>r\<close> that the
  pieces are pushed onto; \<^verbatim>\<open>r || []\<close> is a fresh array exactly when \<open>r\<close> was
  not given (an array, even an empty one, is truthy). The optional argument is
  an \<open>option\<close>. Without it the divide-and-conquer branch simplifies what it
  collected, with it the pieces are returned as collected.
\<close>

definition or_empty :: "domain option \<Rightarrow> domain" where
  "or_empty r = (case r of None \<Rightarrow> [] | Some r' \<Rightarrow> r')"

function domain_intersection_r :: "domain \<Rightarrow> domain \<Rightarrow> domain option \<Rightarrow> domain" where
  "domain_intersection_r dom1 dom2 r =
     (if length dom1 = 0 \<or> length dom2 = 0 then or_empty r
      else if length dom1 = 1 then
        (if length dom2 = 1 then
           (let b1 = hd dom1; b2 = hd dom2;
                mn = (if fst b1 > fst b2 then fst b1 else fst b2);
                mx = (if snd b1 < snd b2 then snd b1 else snd b2)
            in if mx \<ge> mn then or_empty r @ [(mn, mx)] else or_empty r)
         else domain_intersection_r dom2 dom1 r)
      else
        (if length dom2 = 1 then
           (let mn = fst (hd dom2); mx = snd (hd dom2)
            in or_empty r @
               map (\<lambda>d. ((if mn > fst d then mn else fst d), (if mx < snd d then mx else snd d)))
                 (filter (\<lambda>d. fst d \<le> mx \<and> snd d \<ge> mn) dom1))
         else
           (let i = length dom1 div 2; j = length dom2 div 2;
                d1 = take i dom1; d2 = drop i dom1;
                d3 = take j dom2; d4 = drop j dom2;
                d = domain_intersection_r d1 d3 r;
                d = domain_intersection_r d1 d4 (Some d);
                d = domain_intersection_r d2 d3 (Some d);
                d = domain_intersection_r d2 d4 (Some d)
            in (case r of None \<Rightarrow> simplify_domain d | Some _ \<Rightarrow> d))))"
  by pat_completeness auto
termination
proof (relation "measure (\<lambda>(dom1, dom2, r).
        2 * (length dom1 + length dom2) + (if length dom1 = 1 then 1 else 0))", goal_cases)
  case 1
  show ?case by simp
next
  case (2 dom1 dom2 r)
  then show ?case by simp
next
  case (3 dom1 dom2 r i j d1 d2 d3 d4)
  then have "2 \<le> length dom1" "2 \<le> length dom2" by arith+
  then show ?case unfolding 3(4-9) by simp arith
next
  case (4 dom1 dom2 r i j d1 d2 d3 d4 d)
  then have "2 \<le> length dom1" "2 \<le> length dom2" by arith+
  then show ?case unfolding 4(4-9) by simp arith
next
  case (5 dom1 dom2 r i j d1 d2 d3 d4 d d')
  then have "2 \<le> length dom1" "2 \<le> length dom2" by arith+
  then show ?case unfolding 5(4-9) by simp arith
next
  case (6 dom1 dom2 r i j d1 d2 d3 d4 d d' d'')
  then have "2 \<le> length dom1" "2 \<le> length dom2" by arith+
  then show ?case unfolding 6(4-9) by simp arith
qed

declare domain_intersection_r.simps [simp del]

text \<open>The call with \<open>r\<close> omitted, as every caller outside the function makes it.\<close>

definition domain_intersection :: "domain \<Rightarrow> domain \<Rightarrow> domain" where
  "domain_intersection dom1 dom2 = domain_intersection_r dom1 dom2 None"

subsection \<open>domain_complement and domain_union\<close>

text \<open>
  The loop of \<^verbatim>\<open>domain_complement\<close>. The source advances \<open>end\<close> with
  \<^verbatim>\<open>end = d[0][1] + 1\<close>: the right end of the first interval at every
  iteration, which is what \<open>d0\<close> carries here.
\<close>

fun domain_complement_loop :: "interval \<Rightarrow> int \<Rightarrow> domain \<Rightarrow> domain" where
  "domain_complement_loop d0 endv [] =
     (if endv < FD_SUP then [(endv, FD_SUP)] else [])"
| "domain_complement_loop d0 endv (di # rest) =
     (if endv < fst di then [(endv, fst di - 1)] else [])
       @ domain_complement_loop d0 (snd d0 + 1) rest"

definition domain_complement :: "domain \<Rightarrow> domain" where
  "domain_complement d =
     (case d of
        [] \<Rightarrow> [(0, FD_SUP)]
      | d0 # _ \<Rightarrow> domain_complement_loop d0 0 d)"

definition domain_union :: "domain \<Rightarrow> domain \<Rightarrow> domain" where
  "domain_union d1 d2 = simplify_domain (d1 @ d2)"

text \<open>
  Canonical form as the specification words it: sorted, non-empty intervals,
  neither overlapping nor touching, all inside \<open>[0, FD_SUP]\<close>.
\<close>

definition canonical :: "domain \<Rightarrow> bool" where
  "canonical d = (separated 1 d \<and> list_all (\<lambda>i. 0 \<le> fst i \<and> snd i \<le> FD_SUP) d)"

subsection \<open>Closing gaps before adding\<close>

text \<open>
  \<^verbatim>\<open>dom_smallest_interval_width\<close> is \<^verbatim>\<open>Math.min.apply(null, widths)\<close>, which is
  \<^verbatim>\<open>Infinity\<close> for a domain with no interval; every comparison
  \<^verbatim>\<open>x < Infinity\<close> of a finite \<open>x\<close> holds.
\<close>

datatype width = Width int | Infinity

fun width_less :: "int \<Rightarrow> width \<Rightarrow> bool" where
  "width_less x (Width g) = (x < g)"
| "width_less x Infinity = True"

fun width_min :: "width \<Rightarrow> width \<Rightarrow> width" where
  "width_min Infinity w = w"
| "width_min (Width a) Infinity = Width a"
| "width_min (Width a) (Width b) = Width (min a b)"

definition dom_smallest_interval_width :: "domain \<Rightarrow> width" where
  "dom_smallest_interval_width d =
     foldr (\<lambda>i m. width_min (Width (snd i - fst i + 1)) m) d Infinity"

fun dom_close_gaps_loop :: "interval \<Rightarrow> domain \<Rightarrow> width \<Rightarrow> domain" where
  "dom_close_gaps_loop prev [] gap = [prev]"
| "dom_close_gaps_loop prev (next # rest) gap =
     (if width_less (fst next - snd prev) gap
      then dom_close_gaps_loop (fst prev, snd next) rest gap
      else prev # dom_close_gaps_loop next rest gap)"

definition dom_close_gaps :: "domain \<Rightarrow> width \<Rightarrow> domain" where
  "dom_close_gaps d gap =
     (case d of
        [] \<Rightarrow> d
      | d0 # rest \<Rightarrow> dom_close_gaps_loop d0 rest gap)"

text \<open>
  The \<^verbatim>\<open>do ... while (change > 0)\<close> loop of \<^verbatim>\<open>dom_close_gaps2\<close>; \<open>change\<close>
  adds up by how many intervals each operand got shorter in the round.
\<close>

function dom_close_gaps2 :: "domain \<Rightarrow> domain \<Rightarrow> domain \<times> domain" where
  "dom_close_gaps2 d1 d2 =
     (let d1' = dom_close_gaps d1 (dom_smallest_interval_width d2);
          d2' = dom_close_gaps d2 (dom_smallest_interval_width d1');
          change = (int (length d1) - int (length d1')) + (int (length d2) - int (length d2'))
      in if change > 0 then dom_close_gaps2 d1' d2' else (d1', d2'))"
  by pat_completeness auto
termination
proof (relation "measure (\<lambda>(d1, d2). length d1 + length d2)", goal_cases)
  case 1
  show ?case by simp
next
  case (2 d1 d2 d1' d2' change)
  have loop: "length (dom_close_gaps_loop p r g) \<le> Suc (length r)" for p r g
    by (induction r arbitrary: p) (simp_all add: le_SucI)
  have len: "length (dom_close_gaps d g) \<le> length d" for d g
    using loop by (cases d) (auto simp: dom_close_gaps_def)
  show ?case using 2 len[of d1 "dom_smallest_interval_width d2"]
      len[of d2 "dom_smallest_interval_width d1'"] by simp
qed

declare dom_close_gaps2.simps [simp del]

subsection \<open>dom_plus\<close>

definition dom_plus :: "domain \<Rightarrow> domain \<Rightarrow> domain" where
  "dom_plus d1 d2 =
     (let d = dom_close_gaps2 d1 d2;
          d1 = fst d;
          d2 = snd d;
          p = concat (map (\<lambda>i1. map (\<lambda>i2.
                (min FD_SUP (fst i1 + fst i2), min FD_SUP (snd i1 + snd i2))) d2) d1)
      in simplify_domain p)"

text \<open>
  The sums of the members of two sets, and the sums each clamped at \<open>FD_SUP\<close>,
  \<open>{min(x + y, SUP) : x in A, y in B}\<close>.
\<close>

definition sumset :: "int set \<Rightarrow> int set \<Rightarrow> int set" where
  "sumset A B = (\<lambda>(x, y). x + y) ` (A \<times> B)"

definition clamped_sums :: "int set \<Rightarrow> int set \<Rightarrow> int set" where
  "clamped_sums A B = (\<lambda>(x, y). min (x + y) FD_SUP) ` (A \<times> B)"

subsection \<open>The other arithmetic on domains\<close>

definition dom_times :: "domain \<Rightarrow> domain \<Rightarrow> domain" where
  "dom_times d1 d2 =
     simplify_domain (concat (map (\<lambda>i1. map (\<lambda>i2.
        (min FD_SUP (fst i1 * fst i2), min FD_SUP (snd i1 * snd i2))) d2) d1))"

definition dom_minus :: "domain \<Rightarrow> domain \<Rightarrow> domain" where
  "dom_minus d1 d2 =
     (let d = dom_close_gaps2 d1 d2;
          d1 = fst d;
          d2 = snd d;
          p = concat (map (\<lambda>i1. concat (map (\<lambda>i2.
                (let lo = fst i1 - snd i2; hi = snd i1 - fst i2
                 in if hi \<ge> 0 then [((if lo < 0 then 0 else lo), hi)] else [])) d2)) d1)
      in simplify_domain p)"

text \<open>
  \<^verbatim>\<open>dom_divby\<close> divides with JavaScript's \<^verbatim>\<open>/\<close> and does not round: its bounds are
  floating-point numbers that are in general no integers. It is not modelled;
  the multiplication propagators below take the division as a parameter, and
  what is proved about them holds whatever it computes.
\<close>

section \<open>Variables, propagators and spaces\<close>

subsection \<open>Names, exceptions, outcomes\<close>

text \<open>
  A variable is named by a string or by a number; \<^verbatim>\<open>temp\<close> hands out numbers.
  Both are used as property keys of \<^verbatim>\<open>space.vars\<close>, where a number and the
  string that spells it are one key: \<open>Tmp n\<close> stands for that key, \<open>Sym s\<close> for
  the key of a string \<open>s\<close> that does not spell a number. An argument the caller
  may leave out is an \<open>option\<close>; the source tests it with \<^verbatim>\<open>!name\<close>, and names
  are taken to be truthy: no empty string, no number 0.
\<close>

datatype name = Sym string | Tmp int

text \<open>
  \<^verbatim>\<open>space.vars\<close> and \<^verbatim>\<open>Propagator.complementary_operator\<close> are plain objects:
  reading a key of \<^verbatim>\<open>Object.prototype\<close> in them finds the inherited member, and
  \<^verbatim>\<open>in\<close> holds for it. These are the keys of \<^verbatim>\<open>Object.prototype\<close>, the
  standard ones and those of Annex B.
\<close>

definition object_prototype_keys :: "string list" where
  "object_prototype_keys =
     [''constructor'', ''toString'', ''toLocaleString'', ''valueOf'', ''hasOwnProperty'',
      ''isPrototypeOf'', ''propertyIsEnumerable'', ''__proto__'', ''__defineGetter__'',
      ''__defineSetter__'', ''__lookupGetter__'', ''__lookupSetter__'']"

text \<open>
  The maps of the model hold variables only, each under one name. So a name
  stands for what the source does with it when it is \<open>proper\<close>: a number, or a
  string that is no key of \<^verbatim>\<open>Object.prototype\<close> and is not made of digits and
  minus signs (the source itself takes a key of digits for a temporary, in
  \<^verbatim>\<open>solution\<close>). A string that spells a number is written \<open>Tmp\<close>.
\<close>

definition numeric_key :: "string \<Rightarrow> bool" where
  "numeric_key s = (s \<noteq> [] \<and> list_all (\<lambda>c. c \<in> set ''0123456789-'') s)"

definition proper :: "name \<Rightarrow> bool" where
  "proper n =
     (case n of
        Sym s \<Rightarrow> s \<notin> set object_prototype_keys \<and> \<not> numeric_key s
      | Tmp t \<Rightarrow> True)"

datatype name_or_names = Single name | Collection "name_or_names list"

text \<open>
  \<open>Fail\<close> is \<^verbatim>\<open>throw 'fail'\<close>. \<open>TypeError\<close> is what JavaScript raises when a
  property of \<^verbatim>\<open>undefined\<close> is read. \<open>UsageError\<close> carries the string the
  source throws.
\<close>

datatype exn = Fail | TypeError | UsageError string

text \<open>
  What a call does to a state of type \<open>'s\<close>: it returns a value, or it throws,
  both with the state as it is at that moment, or it is still looping when the
  fuel of the model is used up.
\<close>

datatype ('a, 's) outcome = Normal 'a 's | Raised exn 's | Timeout

subsection \<open>FDVar\<close>

record fdvar =
  dom_v :: domain
  step_v :: int

text \<open>\<^verbatim>\<open>new FDVar(dom, step)\<close>: \<^verbatim>\<open>dom || [[0, FD_SUP]]\<close> and \<^verbatim>\<open>step || 0\<close>.\<close>

definition FDVar :: "domain option \<Rightarrow> int option \<Rightarrow> fdvar" where
  "FDVar dm step =
     \<lparr> dom_v = (case dm of None \<Rightarrow> [(0, FD_SUP)] | Some d \<Rightarrow> d),
       step_v = (case step of None \<Rightarrow> 0 | Some n \<Rightarrow> n) \<rparr>"

definition domain_non_empty :: "domain \<Rightarrow> exn + domain" where
  "domain_non_empty dm = (if length dm = 0 then Inl Fail else Inr dm)"

definition domain_bounds :: "domain \<Rightarrow> exn + interval" where
  "domain_bounds d = (if length d > 0 then Inr (fst (hd d), snd (last d)) else Inl Fail)"

fun domain_equal :: "domain \<Rightarrow> domain \<Rightarrow> bool" where
  "domain_equal d1 d2 =
     (if length d1 \<noteq> length d2 then False
      else list_all (\<lambda>(a, b). \<not> (fst a \<noteq> fst b \<or> snd a \<noteq> snd b)) (zip d1 d2))"

definition set_dom :: "fdvar \<Rightarrow> domain \<Rightarrow> fdvar" where
  "set_dom v d =
     (if \<not> domain_equal (dom_v v) d then v\<lparr>dom_v := d, step_v := step_v v + 1\<rparr> else v)"

definition constrain :: "fdvar \<Rightarrow> domain \<Rightarrow> exn + fdvar" where
  "constrain v d =
     (case domain_non_empty (domain_intersection (dom_v v) d) of
        Inl e \<Rightarrow> Inl e
      | Inr d' \<Rightarrow> Inr (set_dom v d'))"

text \<open>\<^verbatim>\<open>is_undetermined\<close> reads \<^verbatim>\<open>this.dom[0][0]\<close>, which throws on an empty domain.\<close>

definition is_undetermined :: "fdvar \<Rightarrow> exn + bool" where
  "is_undetermined v =
     (if length (dom_v v) > 1 then Inr True
      else (case dom_v v of
              [] \<Rightarrow> Inl TypeError
            | i # _ \<Rightarrow> Inr (fst i < snd i)))"

subsection \<open>Propagators\<close>

text \<open>
  A propagator object holds \<^verbatim>\<open>allvars\<close>, \<^verbatim>\<open>depvars\<close>, its \<^verbatim>\<open>step\<close> function,
  and what \<^verbatim>\<open>initprop\<close> and the step functions store in it: \<^verbatim>\<open>last_step\<close>, the
  variables bound in \<^verbatim>\<open>space[1..]\<close>, \<^verbatim>\<open>solved\<close>, and for a reified propagator
  its private \<^verbatim>\<open>p\<close> and \<^verbatim>\<open>np\<close>. The step functions of the source are closures;
  \<open>stepfn\<close> names each of them together with what it captured: the two domain
  operations of \<^verbatim>\<open>ring\<close>, the factor of \<^verbatim>\<open>scale\<close>, and the positive and the
  negative propagator that \<^verbatim>\<open>reified\<close> popped (of which the closure reads
  \<^verbatim>\<open>allvars\<close>, \<^verbatim>\<open>depvars\<close> and \<^verbatim>\<open>step\<close>; \<^verbatim>\<open>pop()\<close> of an empty array is
  \<^verbatim>\<open>undefined\<close>, here \<open>None\<close>).
\<close>

type_synonym binop = "domain \<Rightarrow> domain \<Rightarrow> domain"

datatype stepfn =
    Eq_step
  | Lt_step
  | Lte_step
  | Neq_step
  | Ring_sum_step binop
  | Ring_v1_step binop
  | Ring_v2_step binop
  | Scale_prod_step int
  | Scale_v_step int
  | Reified_step "(name list \<times> name list \<times> stepfn) option"
                 "(name list \<times> name list \<times> stepfn) option"

text \<open>
  \<open>space_p\<close> is \<^verbatim>\<open>p.space\<close> without its first entry (the space itself): the
  variable objects \<^verbatim>\<open>initprop\<close> found under the names of \<^verbatim>\<open>allvars\<close>, each given
  by its name, and \<open>None\<close> where \<^verbatim>\<open>this.vars[name]\<close> was \<^verbatim>\<open>undefined\<close>. A variable
  object is never replaced or removed once it is in \<^verbatim>\<open>space.vars\<close>, so reading
  the variable under the bound name is reading the bound object.
\<close>

datatype propagator =
  Propagator (allvars: "name list") (depvars: "name list") (step_fn: stepfn)
    (last_step: int) (space_p: "name option list") (solved: bool)
    (p_inner: "propagator option") (np_inner: "propagator option")

definition set_last_step :: "propagator \<Rightarrow> int \<Rightarrow> propagator" where
  "set_last_step P n =
     Propagator (allvars P) (depvars P) (step_fn P) n (space_p P) (solved P)
       (p_inner P) (np_inner P)"

definition set_solved :: "propagator \<Rightarrow> bool \<Rightarrow> propagator" where
  "set_solved P b =
     Propagator (allvars P) (depvars P) (step_fn P) (last_step P) (space_p P) b
       (p_inner P) (np_inner P)"

definition set_p_inner :: "propagator \<Rightarrow> propagator \<Rightarrow> propagator" where
  "set_p_inner P q =
     Propagator (allvars P) (depvars P) (step_fn P) (last_step P) (space_p P) (solved P)
       (Some q) (np_inner P)"

definition set_np_inner :: "propagator \<Rightarrow> propagator \<Rightarrow> propagator" where
  "set_np_inner P q =
     Propagator (allvars P) (depvars P) (step_fn P) (last_step P) (space_p P) (solved P)
       (p_inner P) (Some q)"

subsection \<open>Space: declaring variables and adding propagators\<close>

text \<open>
  Of a space the model keeps \<^verbatim>\<open>vars\<close> and \<^verbatim>\<open>_propagators\<close>; the brancher and the
  counters of the search are read by no function modelled here. The counter
  \<^verbatim>\<open>Space._temp_count\<close> belongs to the class, not to a space: the functions that
  allocate temporaries take it and return it next to the space.
\<close>

record space =
  vars :: "name \<rightharpoonup> fdvar"
  propagators :: "propagator list"

definition new_space :: space where
  "new_space = \<lparr> vars = Map.empty, propagators = [] \<rparr>"

definition temp_count_init :: int where
  "temp_count_init = 1"

text \<open>
  \<^verbatim>\<open>decl\<close> of one name: an existing variable gets \<^verbatim>\<open>set_dom(dom)\<close> when \<open>dom\<close> is
  given, a new one is made by \<^verbatim>\<open>new FDVar(dom)\<close>. A collection of names is
  declared name by name.
\<close>

definition decl1 :: "space \<Rightarrow> name \<Rightarrow> domain option \<Rightarrow> space" where
  "decl1 S name dm =
     (case vars S name of
        Some f \<Rightarrow>
          (case dm of
             Some d \<Rightarrow> S\<lparr>vars := (vars S)(name \<mapsto> set_dom f d)\<rparr>
           | None \<Rightarrow> S)
      | None \<Rightarrow> S\<lparr>vars := (vars S)(name \<mapsto> FDVar dm None)\<rparr>)"

fun decl :: "space \<Rightarrow> name_or_names \<Rightarrow> domain option \<Rightarrow> space" where
  "decl S (Collection ns) dm = fold (\<lambda>n S'. decl S' n dm) ns S"
| "decl S (Single name) dm = decl1 S name dm"

definition num :: "space \<Rightarrow> name \<Rightarrow> int \<Rightarrow> space" where
  "num S name n = decl S (Single name) (Some [(n, n)])"

type_synonym st = "int \<times> space"

definition temp :: "st \<Rightarrow> domain option \<Rightarrow> name \<times> st" where
  "temp s dm =
     (let t = fst s + 1
      in (Tmp t, (t, decl (snd s) (Single (Tmp t)) dm)))"



text \<open>
  \<^verbatim>\<open>initprop\<close> reads of the space only its variables; the step function of a
  reified propagator calls it on the space the propagator is bound to.
\<close>

definition bind_vars :: "(name \<rightharpoonup> fdvar) \<Rightarrow> name list \<Rightarrow> name option list" where
  "bind_vars vs ns = map (\<lambda>n. if vs n = None then None else Some n) ns"

definition initprop_in ::
  "(name \<rightharpoonup> fdvar) \<Rightarrow> name list \<times> name list \<times> stepfn \<Rightarrow> propagator" where
  "initprop_in vs p =
     Propagator (fst p) (fst (snd p)) (snd (snd p)) (- 1) (bind_vars vs (fst p)) False None None"

definition initprop :: "space \<Rightarrow> name list \<times> name list \<times> stepfn \<Rightarrow> propagator" where
  "initprop S p = initprop_in (vars S) p"

definition newprop :: "space \<Rightarrow> name list \<times> name list \<times> stepfn \<Rightarrow> space" where
  "newprop S p = S\<lparr>propagators := propagators S @ [initprop S p]\<rparr>"

subsection \<open>The constraint constructors\<close>

text \<open>
  A constructor returns the space (\<open>This\<close>) or, in functional style, the name of
  the variable that holds its result.
\<close>

datatype retval = This | Name name

definition eq_c :: "space \<Rightarrow> name \<Rightarrow> name option \<Rightarrow> retval \<times> space" where
  "eq_c S v1name v2name =
     (case v2name of
        None \<Rightarrow> (Name v1name, S)
      | Some v2 \<Rightarrow> (This, newprop S ([v1name, v2], [v1name, v2], Eq_step)))"

definition lt :: "space \<Rightarrow> name \<Rightarrow> name \<Rightarrow> space" where
  "lt S v1name v2name = newprop S ([v1name, v2name], [v1name, v2name], Lt_step)"

definition gt :: "space \<Rightarrow> name \<Rightarrow> name \<Rightarrow> space" where
  "gt S v1name v2name = lt S v2name v1name"

definition lte :: "space \<Rightarrow> name \<Rightarrow> name \<Rightarrow> space" where
  "lte S v1name v2name = newprop S ([v1name, v2name], [v1name, v2name], Lte_step)"

definition gte :: "space \<Rightarrow> name \<Rightarrow> name \<Rightarrow> space" where
  "gte S v1name v2name = lte S v2name v1name"

definition neq :: "space \<Rightarrow> name \<Rightarrow> name \<Rightarrow> space" where
  "neq S v1name v2name = newprop S ([v1name, v2name], [v1name, v2name], Neq_step)"

definition ring :: "binop \<Rightarrow> binop \<Rightarrow> st \<Rightarrow> name \<Rightarrow> name \<Rightarrow> name option \<Rightarrow> retval \<times> st" where
  "ring plusop minusop s v1name v2name sumname =
     (let (sumname', retval, s1) =
            (case sumname of
               None \<Rightarrow> (let (t, s') = temp s None in (t, Name t, s'))
             | Some n \<Rightarrow> (n, This, s));
          S = snd s1;
          S = newprop S ([v1name, v2name, sumname'], [v1name, v2name], Ring_sum_step plusop);
          S = newprop S ([v1name, v2name, sumname'], [v2name, sumname'], Ring_v1_step minusop);
          S = newprop S ([v1name, v2name, sumname'], [v1name, sumname'], Ring_v2_step minusop)
      in (retval, (fst s1, S)))"

definition plus_c :: "st \<Rightarrow> name \<Rightarrow> name \<Rightarrow> name option \<Rightarrow> retval \<times> st" where
  "plus_c s v1name v2name sumname = ring dom_plus dom_minus s v1name v2name sumname"

definition times_c :: "binop \<Rightarrow> st \<Rightarrow> name \<Rightarrow> name \<Rightarrow> name option \<Rightarrow> retval \<times> st" where
  "times_c dom_divby s v1name v2name prodname = ring dom_times dom_divby s v1name v2name prodname"

definition scale :: "st \<Rightarrow> int \<Rightarrow> name \<Rightarrow> name option \<Rightarrow> (retval, st) outcome" where
  "scale s factor vname prodname =
     (if factor = 1 then
        (let (r, S) = eq_c (snd s) vname prodname in Normal r (fst s, S))
      else if factor = 0 then
        (let (t, s') = temp s (Some [(0, 0)]);
             (r, S) = eq_c (snd s') t prodname
         in Normal r (fst s', S))
      else if factor < 0 then
        Raised (UsageError ''scale: negative factors not supported.'') s
      else
        (let (prodname', retval, s1) =
               (case prodname of
                  None \<Rightarrow> (let (t, s') = temp s None in (t, Name t, s'))
                | Some n \<Rightarrow> (n, This, s));
             S = snd s1;
             S = newprop S ([vname, prodname'], [vname], Scale_prod_step factor);
             S = newprop S ([vname, prodname'], [prodname'], Scale_v_step factor)
         in Normal retval (fst s1, S)))"

text \<open>
  \<^verbatim>\<open>sum\<close> and \<^verbatim>\<open>product\<close> allocate the result variable first when no name is
  given, and only then look at the number of variables.
\<close>

function sum_c :: "st \<Rightarrow> name list \<Rightarrow> name option \<Rightarrow> (retval, st) outcome" where
  "sum_c s vs resultName =
     (let (resultName', retval, s1) =
            (case resultName of
               None \<Rightarrow> (let (t, s') = temp s None in (t, Name t, s'))
             | Some n \<Rightarrow> (n, This, s))
      in if length vs = 0 then Raised (UsageError ''Space.sum: Nothing to sum!'') s1
         else if length vs = 1 then
           Normal retval (fst s1, snd (eq_c (snd s1) (vs ! 0) (Some resultName')))
         else if length vs = 2 then
           Normal retval (snd (plus_c s1 (vs ! 0) (vs ! 1) (Some resultName')))
         else
           (let n = length vs div 2;
                (t2, s2) = temp s1 None
            in case sum_c s2 (drop n vs) (Some t2) of
                 Raised e s' \<Rightarrow> Raised e s'
               | Timeout \<Rightarrow> Timeout
               | Normal _ s3 \<Rightarrow>
                   (if n > 1 then
                      (let (t1, s4) = temp s3 None
                       in case sum_c s4 (take n vs) (Some t1) of
                            Raised e s' \<Rightarrow> Raised e s'
                          | Timeout \<Rightarrow> Timeout
                          | Normal _ s5 \<Rightarrow>
                              Normal retval (snd (plus_c s5 t1 t2 (Some resultName'))))
                    else
                      Normal retval (snd (plus_c s3 (vs ! 0) t2 (Some resultName'))))))"
  by pat_completeness auto
termination
proof (relation "measure (\<lambda>(s, vs, r). length vs)", goal_cases)
  case 1
  show ?case by simp
next
  case (2 s vs resultName x xa y xb ya n)
  then have "3 \<le> length vs" by arith
  then show ?case unfolding 2 by simp
next
  case (3 s vs resultName x xa y xb ya n)
  then have "3 \<le> length vs" by arith
  then show ?case unfolding 3 by simp
qed

declare sum_c.simps [simp del]

function product_c :: "binop \<Rightarrow> st \<Rightarrow> name list \<Rightarrow> name option \<Rightarrow> (retval, st) outcome" where
  "product_c dom_divby s vs resultName =
     (let (resultName', retval, s1) =
            (case resultName of
               None \<Rightarrow> (let (t, s') = temp s None in (t, Name t, s'))
             | Some n \<Rightarrow> (n, This, s))
      in if length vs = 0 then Normal retval s1
         else if length vs = 1 then
           Normal retval (fst s1, snd (eq_c (snd s1) (vs ! 0) (Some resultName')))
         else if length vs = 2 then
           Normal retval (snd (times_c dom_divby s1 (vs ! 0) (vs ! 1) (Some resultName')))
         else
           (let n = length vs div 2;
                (t2, s2) = temp s1 None
            in case product_c dom_divby s2 (drop n vs) (Some t2) of
                 Raised e s' \<Rightarrow> Raised e s'
               | Timeout \<Rightarrow> Timeout
               | Normal _ s3 \<Rightarrow>
                   (if n > 1 then
                      (let (t1, s4) = temp s3 None
                       in case product_c dom_divby s4 (take n vs) (Some t1) of
                            Raised e s' \<Rightarrow> Raised e s'
                          | Timeout \<Rightarrow> Timeout
                          | Normal _ s5 \<Rightarrow>
                              Normal retval (snd (times_c dom_divby s5 t1 t2 (Some resultName'))))
                    else
                      Normal retval (snd (times_c dom_divby s3 (vs ! 0) t2 (Some resultName'))))))"
  by pat_completeness auto
termination
proof (relation "measure (\<lambda>(d, s, vs, r). length vs)", goal_cases)
  case 1
  show ?case by simp
next
  case (2 dv s vs resultName x xa y xb ya n)
  then have "3 \<le> length vs" by arith
  then show ?case unfolding 2 by simp
next
  case (3 dv s vs resultName x xa y xb ya n)
  then have "3 \<le> length vs" by arith
  then show ?case unfolding 3 by simp
qed

declare product_c.simps [simp del]



text \<open>
  \<^verbatim>\<open>reified(opname, argv, boolname)\<close>. The source asks for \<open>argv\<close> to be an array
  of two variable names, here a pair. \<open>complementary_operator\<close> is the object
  \<^verbatim>\<open>Propagator.complementary_operator\<close> with its six own keys. The test
  \<^verbatim>\<open>opname in Propagator.complementary_operator\<close> holds for these and for the
  keys the object inherits. The positive and the negative propagator are added
  by the operator's own method and popped again.
\<close>

definition complementary_operator :: "string \<Rightarrow> string option" where
  "complementary_operator opname =
     (if opname = ''eq'' then Some ''neq''
      else if opname = ''neq'' then Some ''eq''
      else if opname = ''lt'' then Some ''gte''
      else if opname = ''gt'' then Some ''lte''
      else if opname = ''lte'' then Some ''gt''
      else if opname = ''gte'' then Some ''lt''
      else None)"

definition apply_operator :: "space \<Rightarrow> string \<Rightarrow> name \<times> name \<Rightarrow> space" where
  "apply_operator S opname argv =
     (if opname = ''eq'' then snd (eq_c S (fst argv) (Some (snd argv)))
      else if opname = ''neq'' then neq S (fst argv) (snd argv)
      else if opname = ''lt'' then lt S (fst argv) (snd argv)
      else if opname = ''gt'' then gt S (fst argv) (snd argv)
      else if opname = ''lte'' then lte S (fst argv) (snd argv)
      else if opname = ''gte'' then gte S (fst argv) (snd argv)
      else S)"

definition pop_propagator ::
  "space \<Rightarrow> (name list \<times> name list \<times> stepfn) option \<times> space" where
  "pop_propagator S =
     (case rev (propagators S) of
        [] \<Rightarrow> (None, S)
      | P # _ \<Rightarrow> (Some (allvars P, depvars P, step_fn P),
                   S\<lparr>propagators := butlast (propagators S)\<rparr>))"

definition in_complementary_operator :: "string \<Rightarrow> bool" where
  "in_complementary_operator opname =
     (complementary_operator opname \<noteq> None \<or> opname \<in> set object_prototype_keys)"

text \<open>
  What \<^verbatim>\<open>reified\<close> does from \<^verbatim>\<open>this[opname].apply(this, argv)\<close> on when \<open>opname\<close>
  is a key of \<^verbatim>\<open>Object.prototype\<close>; it always ends in a \<open>TypeError\<close>.
  \<^verbatim>\<open>constructor\<close> is \<^verbatim>\<open>Space\<close>, which takes \<open>argv[0]\<close> for a space to clone: it
  empties \<^verbatim>\<open>this.vars\<close> and \<^verbatim>\<open>this._propagators\<close> and then reads
  \<^verbatim>\<open>S._propagators.length\<close> of a name. \<^verbatim>\<open>__proto__\<close> is an object without
  \<^verbatim>\<open>apply\<close>, and \<^verbatim>\<open>__defineGetter__\<close> and \<^verbatim>\<open>__defineSetter__\<close> refuse a name for
  a function. The other methods return and change nothing (\<^verbatim>\<open>toString\<close> is
  \<^verbatim>\<open>Space.prototype.toString\<close>); then the last propagator of the space is
  popped, and \<^verbatim>\<open>this[Propagator.complementary_operator[opname]]\<close>, the property
  under the text of a function, is \<^verbatim>\<open>undefined\<close>.
\<close>

definition inherited_operator :: "st \<Rightarrow> string \<Rightarrow> (retval, st) outcome" where
  "inherited_operator s1 opname =
     (if opname = ''constructor''
      then Raised TypeError (fst s1, (snd s1)\<lparr>vars := Map.empty, propagators := []\<rparr>)
      else if opname = ''__proto__'' \<or> opname = ''__defineGetter__''
              \<or> opname = ''__defineSetter__''
      then Raised TypeError s1
      else Raised TypeError (fst s1, snd (pop_propagator (snd s1))))"

definition reified :: "st \<Rightarrow> string \<Rightarrow> name \<times> name \<Rightarrow> name option \<Rightarrow> (retval, st) outcome" where
  "reified s opname argv boolname =
     (if \<not> in_complementary_operator opname then
        Raised (UsageError (''FD.space.reified: Unsupported operator '' @ [CHR 0x27] @ opname
                            @ [CHR 0x27])) s
      else
        (case (case boolname of
                 Some b \<Rightarrow>
                   (case vars (snd s) b of
                      None \<Rightarrow> Inl TypeError
                    | Some v \<Rightarrow>
                        (case constrain v [(0, 1)] of
                           Inl e \<Rightarrow> Inl e
                         | Inr v' \<Rightarrow>
                             Inr (b, This, (fst s, (snd s)\<lparr>vars := (vars (snd s))(b \<mapsto> v')\<rparr>))))
               | None \<Rightarrow> (let (t, s') = temp s (Some [(0, 1)]) in Inr (t, Name t, s'))) of
           Inl e \<Rightarrow> Raised e s
         | Inr (boolname', result, s1) \<Rightarrow>
             (case complementary_operator opname of
                None \<Rightarrow> inherited_operator s1 opname
              | Some cop \<Rightarrow>
                  (let (positive_propagator, S) =
                         pop_propagator (apply_operator (snd s1) opname argv);
                       (negative_propagator, S) =
                         pop_propagator (apply_operator S cop argv);
                       deps = [fst argv, snd argv, boolname'];
                       S = newprop S (deps, deps,
                             Reified_step positive_propagator negative_propagator)
                   in Normal result (fst s1, S)))))"

subsection \<open>The step functions of the propagators\<close>

text \<open>
  A step function runs on its propagator object and on the variables of the
  space, and may change both. \<open>space_var vs P k\<close> is the variable
  \<^verbatim>\<open>this.space[k]\<close> (for \<open>k \<ge> 1\<close>), given by its name; it is \<open>None\<close> when that
  entry is \<^verbatim>\<open>undefined\<close>, and reading a property of it then throws a
  \<open>TypeError\<close>.
\<close>

type_synonym pstate = "propagator \<times> (name \<rightharpoonup> fdvar)"

definition space_var :: "(name \<rightharpoonup> fdvar) \<Rightarrow> propagator \<Rightarrow> nat \<Rightarrow> name option" where
  "space_var vs P k =
     (if k - 1 < length (space_p P) then
        (case space_p P ! (k - 1) of
           None \<Rightarrow> None
         | Some n \<Rightarrow> (if vs n = None then None else Some n))
      else None)"

definition var_step :: "(name \<rightharpoonup> fdvar) \<Rightarrow> name \<Rightarrow> int" where
  "var_step vs n = (case vs n of None \<Rightarrow> 0 | Some v \<Rightarrow> step_v v)"

definition var_dom :: "(name \<rightharpoonup> fdvar) \<Rightarrow> name \<Rightarrow> domain" where
  "var_dom vs n = (case vs n of None \<Rightarrow> [] | Some v \<Rightarrow> dom_v v)"

definition var_set_dom :: "(name \<rightharpoonup> fdvar) \<Rightarrow> name \<Rightarrow> domain \<Rightarrow> (name \<rightharpoonup> fdvar)" where
  "var_set_dom vs n d = (case vs n of None \<Rightarrow> vs | Some v \<Rightarrow> vs(n \<mapsto> set_dom v d))"

text \<open>\<^verbatim>\<open>v.set_dom(domain_non_empty(d))\<close> on the variable named \<open>n\<close>.\<close>

definition set_dom_non_empty ::
  "(name \<rightharpoonup> fdvar) \<Rightarrow> name \<Rightarrow> domain \<Rightarrow> exn + (name \<rightharpoonup> fdvar)" where
  "set_dom_non_empty vs n d =
     (case domain_non_empty d of
        Inl e \<Rightarrow> Inl e
      | Inr d' \<Rightarrow> Inr (var_set_dom vs n d'))"

definition eq_step :: "propagator \<Rightarrow> (name \<rightharpoonup> fdvar) \<Rightarrow> (int, pstate) outcome" where
  "eq_step P vs =
     (case (space_var vs P 1, space_var vs P 2) of
        (Some v1, Some v2) \<Rightarrow>
          (let nextStep = var_step vs v1 + var_step vs v2
           in if nextStep > last_step P then
                (case domain_non_empty (domain_intersection (var_dom vs v1) (var_dom vs v2)) of
                   Inl e \<Rightarrow> Raised e (P, vs)
                 | Inr d \<Rightarrow>
                     (let vs = var_set_dom vs v1 d;
                          vs = var_set_dom vs v2 d;
                          P = set_last_step P (var_step vs v1 + var_step vs v2)
                      in Normal (last_step P - nextStep) (P, vs)))
              else Normal 0 (P, vs))
      | _ \<Rightarrow> Raised TypeError (P, vs))"

text \<open>
  The \<^verbatim>\<open>do ... while\<close> loop of the step function of \<^verbatim>\<open>lt\<close>. Each round costs
  one unit of fuel.
\<close>

fun lt_loop :: "nat \<Rightarrow> name \<Rightarrow> name \<Rightarrow> pstate \<Rightarrow> (unit, pstate) outcome" where
  "lt_loop 0 v1 v2 s = Timeout"
| "lt_loop (Suc fuel) v1 v2 (P, vs) =
     (let P = set_last_step P (var_step vs v1 + var_step vs v2)
      in case domain_bounds (var_dom vs v1) of
           Inl e \<Rightarrow> Raised e (P, vs)
         | Inr b1 \<Rightarrow>
        (case domain_bounds (var_dom vs v2) of
           Inl e \<Rightarrow> Raised e (P, vs)
         | Inr b2 \<Rightarrow>
        (case (if snd b2 - 1 < snd b1
               then set_dom_non_empty vs v1
                      (domain_intersection (var_dom vs v1) [(fst b1, snd b2 - 1)])
               else Inr vs) of
           Inl e \<Rightarrow> Raised e (P, vs)
         | Inr vs1 \<Rightarrow>
        (case (if fst b1 + 1 > fst b2
               then set_dom_non_empty vs1 v2
                      (domain_intersection (var_dom vs1 v2) [(fst b1 + 1, snd b2)])
               else Inr vs1) of
           Inl e \<Rightarrow> Raised e (P, vs1)
         | Inr vs2 \<Rightarrow>
             (if var_step vs2 v1 + var_step vs2 v2 > last_step P
              then lt_loop fuel v1 v2 (P, vs2)
              else Normal () (P, vs2))))))"

definition lt_step :: "nat \<Rightarrow> propagator \<Rightarrow> (name \<rightharpoonup> fdvar) \<Rightarrow> (int, pstate) outcome" where
  "lt_step fuel P vs =
     (case (space_var vs P 1, space_var vs P 2) of
        (Some v1, Some v2) \<Rightarrow>
          (let nextStep = var_step vs v1 + var_step vs v2
           in if nextStep > last_step P then
                (case domain_bounds (var_dom vs v1) of
                   Inl e \<Rightarrow> Raised e (P, vs)
                 | Inr b1 \<Rightarrow>
                (case domain_bounds (var_dom vs v2) of
                   Inl e \<Rightarrow> Raised e (P, vs)
                 | Inr b2 \<Rightarrow>
                     (let P = set_last_step P nextStep
                      in if fst b2 > snd b1 then Normal 0 (set_solved P True, vs)
                         else (case lt_loop fuel v1 v2 (P, vs) of
                                 Raised e s \<Rightarrow> Raised e s
                               | Timeout \<Rightarrow> Timeout
                               | Normal _ (P, vs) \<Rightarrow>
                                   (let P = set_last_step P (var_step vs v1 + var_step vs v2)
                                    in Normal (last_step P - nextStep) (P, vs))))))
              else Normal 0 (P, vs))
      | _ \<Rightarrow> Raised TypeError (P, vs))"

fun lte_loop :: "nat \<Rightarrow> name \<Rightarrow> name \<Rightarrow> pstate \<Rightarrow> (unit, pstate) outcome" where
  "lte_loop 0 v1 v2 s = Timeout"
| "lte_loop (Suc fuel) v1 v2 (P, vs) =
     (let P = set_last_step P (var_step vs v1 + var_step vs v2)
      in case domain_bounds (var_dom vs v1) of
           Inl e \<Rightarrow> Raised e (P, vs)
         | Inr b1 \<Rightarrow>
        (case domain_bounds (var_dom vs v2) of
           Inl e \<Rightarrow> Raised e (P, vs)
         | Inr b2 \<Rightarrow>
        (case (if snd b2 < snd b1
               then set_dom_non_empty vs v1
                      (domain_intersection (var_dom vs v1) [(fst b1, snd b2)])
               else Inr vs) of
           Inl e \<Rightarrow> Raised e (P, vs)
         | Inr vs1 \<Rightarrow>
        (case (if fst b1 > fst b2
               then set_dom_non_empty vs1 v2
                      (domain_intersection (var_dom vs1 v2) [(fst b1, snd b2)])
               else Inr vs1) of
           Inl e \<Rightarrow> Raised e (P, vs1)
         | Inr vs2 \<Rightarrow>
             (if var_step vs2 v1 + var_step vs2 v2 > last_step P
              then lte_loop fuel v1 v2 (P, vs2)
              else Normal () (P, vs2))))))"

definition lte_step :: "nat \<Rightarrow> propagator \<Rightarrow> (name \<rightharpoonup> fdvar) \<Rightarrow> (int, pstate) outcome" where
  "lte_step fuel P vs =
     (case (space_var vs P 1, space_var vs P 2) of
        (Some v1, Some v2) \<Rightarrow>
          (let nextStep = var_step vs v1 + var_step vs v2
           in if nextStep > last_step P then
                (case domain_bounds (var_dom vs v1) of
                   Inl e \<Rightarrow> Raised e (P, vs)
                 | Inr b1 \<Rightarrow>
                (case domain_bounds (var_dom vs v2) of
                   Inl e \<Rightarrow> Raised e (P, vs)
                 | Inr b2 \<Rightarrow>
                     (let P = set_last_step P nextStep
                      in if fst b2 \<ge> snd b1 then Normal 0 (set_solved P True, vs)
                         else (case lte_loop fuel v1 v2 (P, vs) of
                                 Raised e s \<Rightarrow> Raised e s
                               | Timeout \<Rightarrow> Timeout
                               | Normal _ (P, vs) \<Rightarrow>
                                   (let P = set_last_step P (var_step vs v1 + var_step vs v2)
                                    in Normal (last_step P - nextStep) (P, vs))))))
              else Normal 0 (P, vs))
      | _ \<Rightarrow> Raised TypeError (P, vs))"

fun neq_loop :: "nat \<Rightarrow> name \<Rightarrow> name \<Rightarrow> pstate \<Rightarrow> (unit, pstate) outcome" where
  "neq_loop 0 v1 v2 s = Timeout"
| "neq_loop (Suc fuel) v1 v2 (P, vs) =
     (let P = set_last_step P (var_step vs v1 + var_step vs v2)
      in case domain_bounds (var_dom vs v1) of
           Inl e \<Rightarrow> Raised e (P, vs)
         | Inr b1 \<Rightarrow>
        (case domain_bounds (var_dom vs v2) of
           Inl e \<Rightarrow> Raised e (P, vs)
         | Inr b2 \<Rightarrow>
        (case (if fst b1 = snd b1
               then set_dom_non_empty vs v2
                      (domain_intersection (var_dom vs v2) (domain_complement [b1]))
               else Inr vs) of
           Inl e \<Rightarrow> Raised e (P, vs)
         | Inr vs1 \<Rightarrow>
        (case (if fst b2 = snd b2
               then set_dom_non_empty vs1 v1
                      (domain_intersection (var_dom vs1 v1) (domain_complement [b2]))
               else Inr vs1) of
           Inl e \<Rightarrow> Raised e (P, vs1)
         | Inr vs2 \<Rightarrow>
             (if var_step vs2 v1 + var_step vs2 v2 > last_step P
              then neq_loop fuel v1 v2 (P, vs2)
              else Normal () (P, vs2))))))"

definition neq_step :: "nat \<Rightarrow> propagator \<Rightarrow> (name \<rightharpoonup> fdvar) \<Rightarrow> (int, pstate) outcome" where
  "neq_step fuel P vs =
     (case (space_var vs P 1, space_var vs P 2) of
        (Some v1, Some v2) \<Rightarrow>
          (let nextStep = var_step vs v1 + var_step vs v2
           in if nextStep > last_step P then
                (case domain_bounds (var_dom vs v1) of
                   Inl e \<Rightarrow> Raised e (P, vs)
                 | Inr b1 \<Rightarrow>
                (case domain_bounds (var_dom vs v2) of
                   Inl e \<Rightarrow> Raised e (P, vs)
                 | Inr b2 \<Rightarrow>
                     (let P = set_last_step P nextStep
                      in if fst b2 > snd b1 \<or> snd b1 < fst b2
                         then Normal 0 (set_solved P True, vs)
                         else if length (domain_intersection (var_dom vs v1) (var_dom vs v2)) = 0
                         then Normal 0 (set_solved P True, vs)
                         else (case neq_loop fuel v1 v2 (P, vs) of
                                 Raised e s \<Rightarrow> Raised e s
                               | Timeout \<Rightarrow> Timeout
                               | Normal _ (P, vs) \<Rightarrow>
                                   (let P = set_last_step P (var_step vs v1 + var_step vs v2)
                                    in Normal (last_step P - nextStep) (P, vs))))))
              else Normal 0 (P, vs))
      | _ \<Rightarrow> Raised TypeError (P, vs))"

text \<open>
  The three propagators of \<^verbatim>\<open>ring\<close>. They return \<^verbatim>\<open>this.last_step - nextStep\<close>
  also when the gate is closed.
\<close>

definition ring_sum_step ::
  "binop \<Rightarrow> propagator \<Rightarrow> (name \<rightharpoonup> fdvar) \<Rightarrow> (int, pstate) outcome" where
  "ring_sum_step plusop P vs =
     (case (space_var vs P 1, space_var vs P 2, space_var vs P 3) of
        (Some v1, Some v2, Some sm) \<Rightarrow>
          (let nextStep = var_step vs v1 + var_step vs v2 + var_step vs sm
           in if nextStep > last_step P then
                (case set_dom_non_empty vs sm
                        (domain_intersection (plusop (var_dom vs v1) (var_dom vs v2))
                           (var_dom vs sm)) of
                   Inl e \<Rightarrow> Raised e (P, vs)
                 | Inr vs' \<Rightarrow>
                     (let P = set_last_step P
                                (var_step vs' sm + var_step vs' v1 + var_step vs' v2)
                      in Normal (last_step P - nextStep) (P, vs')))
              else Normal (last_step P - nextStep) (P, vs))
      | _ \<Rightarrow> Raised TypeError (P, vs))"

definition ring_v1_step ::
  "binop \<Rightarrow> propagator \<Rightarrow> (name \<rightharpoonup> fdvar) \<Rightarrow> (int, pstate) outcome" where
  "ring_v1_step minusop P vs =
     (case (space_var vs P 1, space_var vs P 2, space_var vs P 3) of
        (Some v1, Some v2, Some sm) \<Rightarrow>
          (let nextStep = var_step vs v1 + var_step vs v2 + var_step vs sm
           in if nextStep > last_step P then
                (case set_dom_non_empty vs v1
                        (domain_intersection (minusop (var_dom vs sm) (var_dom vs v2))
                           (var_dom vs v1)) of
                   Inl e \<Rightarrow> Raised e (P, vs)
                 | Inr vs' \<Rightarrow>
                     (let P = set_last_step P
                                (var_step vs' sm + var_step vs' v1 + var_step vs' v2)
                      in Normal (last_step P - nextStep) (P, vs')))
              else Normal (last_step P - nextStep) (P, vs))
      | _ \<Rightarrow> Raised TypeError (P, vs))"

definition ring_v2_step ::
  "binop \<Rightarrow> propagator \<Rightarrow> (name \<rightharpoonup> fdvar) \<Rightarrow> (int, pstate) outcome" where
  "ring_v2_step minusop P vs =
     (case (space_var vs P 1, space_var vs P 2, space_var vs P 3) of
        (Some v1, Some v2, Some sm) \<Rightarrow>
          (let nextStep = var_step vs v1 + var_step vs v2 + var_step vs sm
           in if nextStep > last_step P then
                (case set_dom_non_empty vs v2
                        (domain_intersection (minusop (var_dom vs sm) (var_dom vs v1))
                           (var_dom vs v2)) of
                   Inl e \<Rightarrow> Raised e (P, vs)
                 | Inr vs' \<Rightarrow>
                     (let P = set_last_step P
                                (var_step vs' sm + var_step vs' v1 + var_step vs' v2)
                      in Normal (last_step P - nextStep) (P, vs')))
              else Normal (last_step P - nextStep) (P, vs))
      | _ \<Rightarrow> Raised TypeError (P, vs))"

text \<open>
  The two propagators of \<^verbatim>\<open>scale\<close>. The first one calls \<^verbatim>\<open>domain_bounds(v.dom)\<close>,
  which throws on an empty domain, and multiplies the bounds of every interval.
  The second divides them and cuts off the fraction with \<^verbatim>\<open>l - l % 1\<close>, which
  rounds towards zero.
\<close>

definition js_trunc_div :: "int \<Rightarrow> int \<Rightarrow> int" where
  "js_trunc_div a k = (if a \<ge> 0 then a div k else - ((- a) div k))"

definition scale_prod_step ::
  "int \<Rightarrow> propagator \<Rightarrow> (name \<rightharpoonup> fdvar) \<Rightarrow> (int, pstate) outcome" where
  "scale_prod_step factor P vs =
     (case (space_var vs P 1, space_var vs P 2) of
        (Some v, Some prd) \<Rightarrow>
          (let nextStep = var_step vs v + var_step vs prd
           in if nextStep > last_step P then
                (case domain_bounds (var_dom vs v) of
                   Inl e \<Rightarrow> Raised e (P, vs)
                 | Inr bd \<Rightarrow>
                     (let kd = map (\<lambda>i. (min FD_SUP (fst i * factor), min FD_SUP (snd i * factor)))
                                 (var_dom vs v)
                      in case set_dom_non_empty vs prd
                                (domain_intersection kd (var_dom vs prd)) of
                           Inl e \<Rightarrow> Raised e (P, vs)
                         | Inr vs' \<Rightarrow>
                             (let P = set_last_step P (var_step vs' v + var_step vs' prd)
                              in Normal (last_step P - nextStep) (P, vs'))))
              else Normal 0 (P, vs))
      | _ \<Rightarrow> Raised TypeError (P, vs))"

definition scale_v_step ::
  "int \<Rightarrow> propagator \<Rightarrow> (name \<rightharpoonup> fdvar) \<Rightarrow> (int, pstate) outcome" where
  "scale_v_step factor P vs =
     (case (space_var vs P 1, space_var vs P 2) of
        (Some v, Some prd) \<Rightarrow>
          (let nextStep = var_step vs v + var_step vs prd
           in if nextStep > last_step P then
                (let dbyk = simplify_domain
                              (map (\<lambda>i. (js_trunc_div (fst i) factor, js_trunc_div (snd i) factor))
                                 (var_dom vs prd))
                 in case set_dom_non_empty vs v (domain_intersection dbyk (var_dom vs v)) of
                      Inl e \<Rightarrow> Raised e (P, vs)
                    | Inr vs' \<Rightarrow>
                        (let P = set_last_step P (var_step vs' v + var_step vs' prd)
                         in Normal (last_step P - nextStep) (P, vs')))
              else Normal 0 (P, vs))
      | _ \<Rightarrow> Raised TypeError (P, vs))"

subsection \<open>The step function of a reified propagator\<close>

text \<open>
  \<^verbatim>\<open>propagator_is_solved(S, p)\<close> looks the variables up by name in \<^verbatim>\<open>S.vars\<close>.
\<close>

fun is_solved_loop :: "(name \<rightharpoonup> fdvar) \<Rightarrow> name list \<Rightarrow> exn + bool" where
  "is_solved_loop vs [] = Inr True"
| "is_solved_loop vs (n # ns) =
     (case vs n of
        None \<Rightarrow> Inl TypeError
      | Some v \<Rightarrow>
          (case is_undetermined v of
             Inl e \<Rightarrow> Inl e
           | Inr u \<Rightarrow> (if u then Inr False else is_solved_loop vs ns)))"

definition propagator_is_solved :: "(name \<rightharpoonup> fdvar) \<Rightarrow> propagator \<Rightarrow> exn + bool" where
  "propagator_is_solved vs p =
     (if solved p then Inr True else is_solved_loop vs (allvars p))"

text \<open>
  \<^verbatim>\<open>save_vars\<close> keeps the domain and the revision of every variable bound in
  \<^verbatim>\<open>P.space[1..]\<close>, and \<^verbatim>\<open>P.last_step\<close>; \<^verbatim>\<open>restore_vars\<close> writes them back. What
  is pushed on \<^verbatim>\<open>var_state_stack\<close> is popped again before the step returns, so
  the stack is a value that is passed along.
\<close>

fun save_vars_loop ::
  "(name \<rightharpoonup> fdvar) \<Rightarrow> name option list \<Rightarrow> exn + (name \<times> fdvar) list" where
  "save_vars_loop vs [] = Inr []"
| "save_vars_loop vs (b # bs) =
     (case b of
        None \<Rightarrow> Inl TypeError
      | Some n \<Rightarrow>
          (case vs n of
             None \<Rightarrow> Inl TypeError
           | Some v \<Rightarrow>
               (case save_vars_loop vs bs of
                  Inl e \<Rightarrow> Inl e
                | Inr saved \<Rightarrow> Inr ((n, v) # saved))))"

definition save_vars ::
  "(name \<rightharpoonup> fdvar) \<Rightarrow> propagator \<Rightarrow> exn + ((name \<times> fdvar) list \<times> int)" where
  "save_vars vs P =
     (case save_vars_loop vs (space_p P) of
        Inl e \<Rightarrow> Inl e
      | Inr saved \<Rightarrow> Inr (saved, last_step P))"

definition restore_vars :: "(name \<times> fdvar) list \<times> int \<Rightarrow> pstate \<Rightarrow> pstate" where
  "restore_vars vss s =
     (set_last_step (fst s) (snd vss),
      fold (\<lambda>nv vs. vs(fst nv \<mapsto> snd nv)) (fst vss) (snd s))"

text \<open>
  The private propagators \<^verbatim>\<open>this.p\<close> and \<^verbatim>\<open>this.np\<close>, made on the first step
  from what \<^verbatim>\<open>reified\<close> popped.
\<close>

datatype which = Positive | Negative

definition inner_of :: "which \<Rightarrow> propagator \<Rightarrow> propagator option" where
  "inner_of w R = (case w of Positive \<Rightarrow> p_inner R | Negative \<Rightarrow> np_inner R)"

definition set_inner :: "which \<Rightarrow> propagator \<Rightarrow> propagator \<Rightarrow> propagator" where
  "set_inner w R q = (case w of Positive \<Rightarrow> set_p_inner R q | Negative \<Rightarrow> set_np_inner R q)"

definition ensure_inner ::
  "(name \<rightharpoonup> fdvar) \<Rightarrow> which \<Rightarrow> (name list \<times> name list \<times> stepfn) option \<Rightarrow> propagator
     \<Rightarrow> exn + propagator" where
  "ensure_inner vs w captured R =
     (case inner_of w R of
        Some q \<Rightarrow> Inr R
      | None \<Rightarrow>
          (case captured of
             None \<Rightarrow> Inl TypeError
           | Some t \<Rightarrow> Inr (set_inner w R (initprop_in vs t))))"

text \<open>
  \<open>run\<close> is the call of the step function of a private propagator.
  \<open>reified_decided\<close> is the block for a decided boolean: the step, which may
  throw, and \<^verbatim>\<open>this.solved = propagator_is_solved(S, p)\<close>.
\<close>

definition reified_decided ::
  "(propagator \<Rightarrow> (name \<rightharpoonup> fdvar) \<Rightarrow> (int, pstate) outcome) \<Rightarrow> which \<Rightarrow> pstate
     \<Rightarrow> (unit, pstate) outcome" where
  "reified_decided run w s =
     (case inner_of w (fst s) of
        None \<Rightarrow> Raised TypeError s
      | Some q \<Rightarrow>
          (case run q (snd s) of
             Timeout \<Rightarrow> Timeout
           | Raised e (q', vs') \<Rightarrow> Raised e (set_inner w (fst s) q', vs')
           | Normal _ (q', vs') \<Rightarrow>
               (case propagator_is_solved vs' q' of
                  Inl e \<Rightarrow> Raised e (set_inner w (fst s) q', vs')
                | Inr sv \<Rightarrow> Normal () (set_solved (set_inner w (fst s) q') sv, vs'))))"

text \<open>
  \<open>reified_speculate\<close> is the block for an undecided boolean: save, step inside
  \<^verbatim>\<open>try\<close>, restore on both paths, and after a throw constrain the boolean to
  \<open>forced\<close>.
\<close>

definition reified_speculate ::
  "(propagator \<Rightarrow> (name \<rightharpoonup> fdvar) \<Rightarrow> (int, pstate) outcome) \<Rightarrow> which \<Rightarrow> name \<Rightarrow> domain
     \<Rightarrow> pstate \<Rightarrow> (unit, pstate) outcome" where
  "reified_speculate run w b forced s =
     (case inner_of w (fst s) of
        None \<Rightarrow> Raised TypeError s
      | Some q \<Rightarrow>
          (case save_vars (snd s) q of
             Inl e \<Rightarrow> Raised e s
           | Inr vss \<Rightarrow>
               (case run q (snd s) of
                  Timeout \<Rightarrow> Timeout
                | Normal _ s' \<Rightarrow>
                    (let (q', vs') = restore_vars vss s'
                     in Normal () (set_inner w (fst s) q', vs'))
                | Raised _ s' \<Rightarrow>
                    (let (q', vs') = restore_vars vss s';
                         R = set_inner w (fst s) q'
                     in case set_dom_non_empty vs' b
                               (domain_intersection (var_dom vs' b) forced) of
                          Inl e \<Rightarrow> Raised e (R, vs')
                        | Inr vs'' \<Rightarrow> Normal () (R, vs'')))))"

fun reified_loop ::
  "nat \<Rightarrow> (propagator \<Rightarrow> (name \<rightharpoonup> fdvar) \<Rightarrow> (int, pstate) outcome) \<Rightarrow> name \<Rightarrow> name \<Rightarrow> name
     \<Rightarrow> pstate \<Rightarrow> (unit, pstate) outcome" where
  "reified_loop 0 run v1 v2 b s = Timeout"
| "reified_loop (Suc fuel) run v1 v2 b (R, vs) =
     (let R = set_last_step R (var_step vs v1 + var_step vs v2 + var_step vs b)
      in case var_dom vs b of
           [] \<Rightarrow> Raised TypeError (R, vs)
         | bdom # _ \<Rightarrow>
        (case (if fst bdom = 1 then reified_decided run Positive (R, vs)
               else Normal () (R, vs)) of
           Timeout \<Rightarrow> Timeout
         | Raised e s \<Rightarrow> Raised e s
         | Normal _ s1 \<Rightarrow>
        (case (if snd bdom = 0 then reified_decided run Negative s1
               else Normal () s1) of
           Timeout \<Rightarrow> Timeout
         | Raised e s \<Rightarrow> Raised e s
         | Normal _ s2 \<Rightarrow>
        (case (if fst bdom < snd bdom then reified_speculate run Positive b [(0, 0)] s2
               else Normal () s2) of
           Timeout \<Rightarrow> Timeout
         | Raised e s \<Rightarrow> Raised e s
         | Normal _ s3 \<Rightarrow>
        (case (if fst bdom < snd bdom
               then (case var_dom (snd s3) b of
                       [] \<Rightarrow> Raised TypeError s3
                     | bdom' # _ \<Rightarrow>
                         (if fst bdom' < snd bdom'
                          then reified_speculate run Negative b [(1, 1)] s3
                          else Normal () s3))
               else Normal () s3) of
           Timeout \<Rightarrow> Timeout
         | Raised e s \<Rightarrow> Raised e s
         | Normal _ (R4, vs4) \<Rightarrow>
             (if var_step vs4 v1 + var_step vs4 v2 + var_step vs4 b > last_step R4
              then reified_loop fuel run v1 v2 b (R4, vs4)
              else Normal () (R4, vs4)))))))"

definition reified_step ::
  "nat \<Rightarrow> (propagator \<Rightarrow> (name \<rightharpoonup> fdvar) \<Rightarrow> (int, pstate) outcome)
     \<Rightarrow> (name list \<times> name list \<times> stepfn) option \<Rightarrow> (name list \<times> name list \<times> stepfn) option
     \<Rightarrow> propagator \<Rightarrow> (name \<rightharpoonup> fdvar) \<Rightarrow> (int, pstate) outcome" where
  "reified_step fuel run positive_propagator negative_propagator R vs =
     (case (space_var vs R 1, space_var vs R 2, space_var vs R 3) of
        (Some v1, Some v2, Some b) \<Rightarrow>
          (let nextStep = var_step vs v1 + var_step vs v2 + var_step vs b
           in if nextStep > last_step R then
                (case ensure_inner vs Positive positive_propagator R of
                   Inl e \<Rightarrow> Raised e (R, vs)
                 | Inr R1 \<Rightarrow>
                (case ensure_inner vs Negative negative_propagator R1 of
                   Inl e \<Rightarrow> Raised e (R1, vs)
                 | Inr R2 \<Rightarrow>
                (case reified_loop fuel run v1 v2 b (R2, vs) of
                   Timeout \<Rightarrow> Timeout
                 | Raised e s \<Rightarrow> Raised e s
                 | Normal _ (R3, vs3) \<Rightarrow>
                     (let R4 = set_last_step R3
                                 (var_step vs3 v1 + var_step vs3 v2 + var_step vs3 b)
                      in Normal (last_step R4 - nextStep) (R4, vs3)))))
              else Normal 0 (R, vs))
      | _ \<Rightarrow> Raised TypeError (R, vs))"

subsection \<open>Calling a step function, and propagate\<close>

text \<open>
  \<^verbatim>\<open>P.step()\<close>: the step function the propagator object holds, run on that
  object. The fuel bounds the rounds of every loop inside and the depth to
  which propagators call the step functions of their private propagators.
\<close>

primrec step :: "nat \<Rightarrow> propagator \<Rightarrow> (name \<rightharpoonup> fdvar) \<Rightarrow> (int, pstate) outcome" where
  "step 0 = (\<lambda>P vs. Timeout)"
| "step (Suc fuel) = (\<lambda>P vs.
     (case step_fn P of
        Eq_step \<Rightarrow> eq_step P vs
      | Lt_step \<Rightarrow> lt_step fuel P vs
      | Lte_step \<Rightarrow> lte_step fuel P vs
      | Neq_step \<Rightarrow> neq_step fuel P vs
      | Ring_sum_step plusop \<Rightarrow> ring_sum_step plusop P vs
      | Ring_v1_step minusop \<Rightarrow> ring_v1_step minusop P vs
      | Ring_v2_step minusop \<Rightarrow> ring_v2_step minusop P vs
      | Scale_prod_step factor \<Rightarrow> scale_prod_step factor P vs
      | Scale_v_step factor \<Rightarrow> scale_v_step factor P vs
      | Reified_step positive_propagator negative_propagator \<Rightarrow>
          reified_step fuel (step fuel) positive_propagator negative_propagator P vs))"

text \<open>
  One pass of \<^verbatim>\<open>propagate\<close> over the propagators in order, adding up what the
  steps return; a step that throws ends the pass.
\<close>

fun run_pass ::
  "nat \<Rightarrow> propagator list \<Rightarrow> (name \<rightharpoonup> fdvar)
     \<Rightarrow> (int, propagator list \<times> (name \<rightharpoonup> fdvar)) outcome" where
  "run_pass fuel [] vs = Normal 0 ([], vs)"
| "run_pass fuel (P # ps) vs =
     (case step fuel P vs of
        Timeout \<Rightarrow> Timeout
      | Raised e (P', vs') \<Rightarrow> Raised e (P' # ps, vs')
      | Normal r (P', vs') \<Rightarrow>
          (case run_pass fuel ps vs' of
             Timeout \<Rightarrow> Timeout
           | Raised e (ps', vs'') \<Rightarrow> Raised e (P' # ps', vs'')
           | Normal c (ps', vs'') \<Rightarrow> Normal (r + c) (P' # ps', vs'')))"

text \<open>
  The \<^verbatim>\<open>do ... while (count > 0)\<close> loop of \<^verbatim>\<open>propagate\<close>: \<open>n\<close> bounds the number
  of passes, \<open>fuel\<close> is what every step gets.
\<close>

fun propagate_loop :: "nat \<Rightarrow> nat \<Rightarrow> int \<Rightarrow> space \<Rightarrow> (int, space) outcome" where
  "propagate_loop 0 fuel totalCount S = Timeout"
| "propagate_loop (Suc n) fuel totalCount S =
     (case run_pass fuel (propagators S) (vars S) of
        Timeout \<Rightarrow> Timeout
      | Raised e (ps, vs) \<Rightarrow> Raised e (S\<lparr>vars := vs, propagators := ps\<rparr>)
      | Normal count (ps, vs) \<Rightarrow>
          (let S' = S\<lparr>vars := vs, propagators := ps\<rparr>;
               totalCount = totalCount + count
           in if count > 0 then propagate_loop n fuel totalCount S'
              else Normal totalCount S'))"

definition propagate :: "nat \<Rightarrow> space \<Rightarrow> (int, space) outcome" where
  "propagate fuel S = propagate_loop fuel fuel 0 S"

text \<open>
  What \<^verbatim>\<open>initprop\<close> and \<^verbatim>\<open>reified\<close> establish and the step functions keep.
  \<^verbatim>\<open>initprop\<close> binds under every name of \<^verbatim>\<open>allvars\<close> the variable of that name
  or \<^verbatim>\<open>undefined\<close>. The propagators that the step function of a reified
  propagator captured, and its private propagators, are comparisons over
  variables that are among the first three of the reified propagator itself.
\<close>

definition is_comparison :: "stepfn \<Rightarrow> bool" where
  "is_comparison f =
     (case f of
        Eq_step \<Rightarrow> True
      | Lt_step \<Rightarrow> True
      | Lte_step \<Rightarrow> True
      | Neq_step \<Rightarrow> True
      | _ \<Rightarrow> False)"

definition names_of :: "name option list \<Rightarrow> name set" where
  "names_of bs = set (List.map_filter (\<lambda>b. b) bs)"

definition bound_ok :: "propagator \<Rightarrow> bool" where
  "bound_ok P = list_all2 (\<lambda>b n. b = None \<or> b = Some n) (space_p P) (allvars P)"

definition captured_ok :: "name set \<Rightarrow> (name list \<times> name list \<times> stepfn) option \<Rightarrow> bool" where
  "captured_ok A c =
     (case c of None \<Rightarrow> True | Some t \<Rightarrow> set (fst t) \<subseteq> A \<and> is_comparison (snd (snd t)))"

definition inner_ok :: "name set \<Rightarrow> propagator option \<Rightarrow> bool" where
  "inner_ok A i =
     (case i of
        None \<Rightarrow> True
      | Some q \<Rightarrow> names_of (space_p q) \<subseteq> A \<and> is_comparison (step_fn q))"

definition wf_propagator :: "propagator \<Rightarrow> bool" where
  "wf_propagator P =
     (case step_fn P of
        Reified_step pos neg \<Rightarrow>
          bound_ok P
          \<and> captured_ok (set (take 3 (allvars P))) pos
          \<and> captured_ok (set (take 3 (allvars P))) neg
          \<and> inner_ok (set (take 3 (allvars P))) (p_inner P)
          \<and> inner_ok (set (take 3 (allvars P))) (np_inner P)
      | _ \<Rightarrow> True)"

subsection \<open>What a step may do to a space\<close>

text \<open>
  The predicates in which the behaviour of the step functions is stated.
  \<open>keeps P P'\<close>: a step leaves the variables a propagator is bound to and its
  step function alone. \<open>evolves A vs vs'\<close>: only variables of \<open>A\<close> differ, no
  variable appears or disappears, no revision counter decreases, and a
  variable whose counter is the same is the same. \<open>revisions vs ns\<close> is the sum
  \<^verbatim>\<open>v1.step + v2.step + ...\<close> that the step functions compare with
  \<^verbatim>\<open>last_step\<close>. \<open>gated ns c P vs out\<close>: with the gate closed the step returns \<open>c\<close>
  and changes nothing; with the gate open a normal return leaves \<^verbatim>\<open>last_step\<close>
  at the sum of the revisions and returns by how much that sum has grown.
\<close>

definition keeps :: "propagator \<Rightarrow> propagator \<Rightarrow> bool" where
  "keeps P P' =
     (allvars P' = allvars P \<and> space_p P' = space_p P \<and> step_fn P' = step_fn P
      \<and> (wf_propagator P \<longrightarrow> wf_propagator P'))"

definition evolves :: "name set \<Rightarrow> (name \<rightharpoonup> fdvar) \<Rightarrow> (name \<rightharpoonup> fdvar) \<Rightarrow> bool" where
  "evolves A vs vs' =
     (\<forall>n. (n \<notin> A \<longrightarrow> vs' n = vs n)
        \<and> (case vs n of
             None \<Rightarrow> vs' n = None
           | Some v \<Rightarrow>
               (case vs' n of
                  None \<Rightarrow> False
                | Some v' \<Rightarrow> step_v v \<le> step_v v' \<and> (step_v v' = step_v v \<longrightarrow> v' = v))))"

definition revisions :: "(name \<rightharpoonup> fdvar) \<Rightarrow> name list \<Rightarrow> int" where
  "revisions vs ns = sum_list (map (var_step vs) ns)"

definition sound :: "name set \<Rightarrow> propagator \<Rightarrow> (name \<rightharpoonup> fdvar) \<Rightarrow> ('a, pstate) outcome \<Rightarrow> bool" where
  "sound A P vs out =
     (case out of
        Timeout \<Rightarrow> True
      | Raised e s \<Rightarrow> keeps P (fst s) \<and> (\<forall>n. n \<notin> A \<longrightarrow> snd s n = vs n)
      | Normal r s \<Rightarrow> keeps P (fst s) \<and> evolves A vs (snd s))"

definition gated ::
  "name list \<Rightarrow> int \<Rightarrow> propagator \<Rightarrow> (name \<rightharpoonup> fdvar) \<Rightarrow> (int, pstate) outcome \<Rightarrow> bool" where
  "gated ns c P vs out =
     (if revisions vs ns > last_step P
      then (case out of
              Normal r s \<Rightarrow>
                keeps P (fst s) \<and> evolves (set ns) vs (snd s)
                \<and> last_step (fst s) = revisions (snd s) ns
                \<and> r = revisions (snd s) ns - revisions vs ns
            | _ \<Rightarrow> True)
      else out = Normal c (P, vs))"

definition nsound ::
  "name set \<Rightarrow> propagator \<Rightarrow> (name \<rightharpoonup> fdvar) \<Rightarrow> ('a, pstate) outcome \<Rightarrow> bool" where
  "nsound A P vs out =
     (case out of
        Normal r s \<Rightarrow> keeps P (fst s) \<and> evolves A vs (snd s)
      | _ \<Rightarrow> True)"

definition run_sound :: "(propagator \<Rightarrow> (name \<rightharpoonup> fdvar) \<Rightarrow> (int, pstate) outcome) \<Rightarrow> bool" where
  "run_sound run =
     (\<forall>q vs. is_comparison (step_fn q) \<longrightarrow> sound (names_of (space_p q)) q vs (run q vs))"

text \<open>
  A space built by the constructors: two variables, \<^verbatim>\<open>lt\<close> between them, and
  the same \<^verbatim>\<open>lt\<close> reified into a fresh boolean.
\<close>

definition example_space :: space where
  "example_space =
     (let S = decl new_space (Single (Sym ''X'')) (Some [(0, 5)]);
          S = decl S (Single (Sym ''Y'')) (Some [(3, 3)]);
          S = lt S (Sym ''X'') (Sym ''Y'')
      in case reified (temp_count_init, S) ''lt'' (Sym ''X'', Sym ''Y'') None of
           Normal r s \<Rightarrow> snd s
         | _ \<Rightarrow> S)"

subsection \<open>What a round of lt asks for\<close>

text \<open>
  The intersection of a domain with one interval, interval by interval: the
  intervals that meet \<open>[a, b]\<close>, each cut down to it.
\<close>

definition clip_list :: "int \<Rightarrow> int \<Rightarrow> domain \<Rightarrow> domain" where
  "clip_list a b d =
     map (\<lambda>i. ((if a > fst i then a else fst i), (if b < snd i then b else snd i)))
       (filter (\<lambda>i. fst i \<le> b \<and> snd i \<ge> a) d)"

text \<open>
  The narrowing of \<open>lt(x, y)\<close> in the words of the specification, for the domains
  \<open>X\<close> of \<open>x\<close> and \<open>Y\<close> of \<open>y\<close> with bounds \<open>(x_lo, x_hi)\<close> and \<open>(y_lo, y_hi)\<close>:
  \<open>x\<close> is constrained to \<open>[x_lo, y_hi - 1]\<close> if \<open>y_hi - 1 < x_hi\<close>, and \<open>y\<close> is
  constrained to \<open>[x_lo + 1, y_hi]\<close> if \<open>x_lo + 1 > y_lo\<close>.
\<close>

definition lt_new_x :: "domain \<Rightarrow> domain \<Rightarrow> domain" where
  "lt_new_x X Y =
     (if snd (last Y) - 1 < snd (last X)
      then domain_intersection X [(fst (hd X), snd (last Y) - 1)] else X)"

definition lt_new_y :: "domain \<Rightarrow> domain \<Rightarrow> domain" where
  "lt_new_y X Y =
     (if fst (hd X) + 1 > fst (hd Y)
      then domain_intersection Y [(fst (hd X) + 1, snd (last Y))] else Y)"

subsection \<open>Sequences of calls on several spaces\<close>


definition state_after :: "('a, st) outcome \<Rightarrow> st \<Rightarrow> st" where
  "state_after r s = (case r of Normal _ s' \<Rightarrow> s' | Raised _ s' \<Rightarrow> s' | Timeout \<Rightarrow> s)"



text \<open>The counter after a call is not below the counter before it.\<close>

definition counter_mono :: "st \<Rightarrow> ('a, st) outcome \<Rightarrow> bool" where
  "counter_mono s r =
     (case r of Normal _ s' \<Rightarrow> fst s \<le> fst s' | Raised _ s' \<Rightarrow> fst s \<le> fst s' | Timeout \<Rightarrow> True)"

section \<open>Properties of the domain operations\<close>

lemma separated_head_lt:
  "separated g (i # rest) \<Longrightarrow> 0 \<le> g \<Longrightarrow> \<forall>j \<in> set rest. fst i \<le> fst j"
proof (induction rest arbitrary: i)
  case Nil then show ?case by simp
next
  case (Cons a rest)
  then show ?case by fastforce
qed

lemma separated_sorted: "0 \<le> g \<Longrightarrow> separated g d \<Longrightarrow> sorted (map fst d)"
proof (induction d rule: separated.induct)
  case (3 g i j rest)
  then show ?case using separated_head_lt[of g i "j # rest"] by auto
qed auto

lemma simplify_scan_separated:
  "fst p \<le> snd p \<Longrightarrow> simplify_scan (snd p) rest \<Longrightarrow> separated 0 (p # rest)"
  by (induction rest arbitrary: p) (auto split: if_splits)

lemma simplify_merge_hd: "\<exists>h ds. simplify_merge p rest = (fst p, h) # ds \<and> snd p \<le> h"
proof (induction rest arbitrary: p)
  case Nil then show ?case by (cases p) simp
next
  case (Cons a rest)
  show ?case
  proof (cases "snd p \<ge> fst a")
    case True
    then show ?thesis using Cons[of "(fst p, max (snd p) (snd a))"] by auto
  next
    case False
    then show ?thesis by (cases p) auto
  qed
qed

lemma simplify_merge_separated:
  "fst p \<le> snd p \<Longrightarrow> nonempty_intervals rest \<Longrightarrow> sorted (map fst (p # rest))
     \<Longrightarrow> separated 0 (simplify_merge p rest)"
proof (induction rest arbitrary: p)
  case Nil then show ?case by simp
next
  case (Cons a rest)
  show ?case
  proof (cases "snd p \<ge> fst a")
    case True
    have "separated 0 (simplify_merge (fst p, max (snd p) (snd a)) rest)"
      using Cons.prems by (intro Cons.IH) auto
    then show ?thesis using True by simp
  next
    case False
    have s: "separated 0 (simplify_merge a rest)"
      using Cons.prems by (intro Cons.IH) auto
    obtain h ds where e: "simplify_merge a rest = (fst a, h) # ds"
      using simplify_merge_hd by blast
    show ?thesis using False s e Cons.prems(1) by auto
  qed
qed

lemma nonempty_intervals_iff: "nonempty_intervals d \<longleftrightarrow> (\<forall>i \<in> set d. fst i \<le> snd i)"
  by (induction d) auto

lemma simplify_domain_fast:
  "rest \<noteq> [] \<Longrightarrow> fst x \<le> snd x \<Longrightarrow> simplify_scan (snd x) rest
     \<Longrightarrow> simplify_domain (x # rest) = x # rest"
  by (cases rest) (simp_all add: simplify_domain_def del: simplify_scan.simps)

lemma simplify_domain_slow:
  "rest \<noteq> [] \<Longrightarrow> \<not> (fst x \<le> snd x \<and> simplify_scan (snd x) rest)
     \<Longrightarrow> sort_key fst (x # rest) = s # ss
     \<Longrightarrow> simplify_domain (x # rest) = simplify_merge s ss"
  by (cases rest) (auto simp add: simplify_domain_def simp del: simplify_scan.simps sort_key_simps)

lemma simplify_domain_separated:
  assumes "nonempty_intervals d"
  shows "separated 0 (simplify_domain d)"
proof (cases d)
  case Nil then show ?thesis by (simp add: simplify_domain_def)
next
  case (Cons x rest)
  note d = this
  show ?thesis
  proof (cases "rest = []")
    case True
    then show ?thesis using d assms by (simp add: simplify_domain_def)
  next
    case ne: False
    show ?thesis
    proof (cases "fst x \<le> snd x \<and> simplify_scan (snd x) rest")
      case True
      then show ?thesis
        using ne d simplify_scan_separated[of x rest] simplify_domain_fast[of rest x] by simp
    next
      case False
      have nes: "nonempty_intervals (sort_key fst d)"
        using assms by (simp add: nonempty_intervals_iff)
      have so: "sorted (map fst (sort_key fst d))" by simp
      obtain s ss where ss: "sort_key fst d = s # ss"
        using d by (cases "sort_key fst d") (auto dest: arg_cong[where f=length])
      have sep: "separated 0 (simplify_merge s ss)"
        using nes so ss by (intro simplify_merge_separated) auto
      show ?thesis
        using simplify_domain_slow[OF ne False] ss sep unfolding d by simp
    qed
  qed
qed

lemma separated_nonempty: "separated g d \<Longrightarrow> nonempty_intervals d"
  by (induction g d rule: separated.induct) auto

lemma dom_set_Nil [simp]: "dom_set [] = {}"
  by (simp add: dom_set_def)

lemma dom_set_Cons [simp]: "dom_set (i # d) = {fst i .. snd i} \<union> dom_set d"
  by (simp add: dom_set_def)

lemma dom_set_append [simp]: "dom_set (a @ b) = dom_set a \<union> dom_set b"
  by (simp add: dom_set_def)

lemma dom_set_simplify_merge:
  "sorted (map fst (p # rest)) \<Longrightarrow> dom_set (simplify_merge p rest) = dom_set (p # rest)"
proof (induction rest arbitrary: p)
  case Nil
  then show ?case by simp
next
  case (Cons a rest)
  show ?case
  proof (cases "snd p \<ge> fst a")
    case True
    have le: "fst p \<le> fst a" using Cons.prems by simp
    have "dom_set (simplify_merge (fst p, max (snd p) (snd a)) rest)
            = dom_set ((fst p, max (snd p) (snd a)) # rest)"
      using Cons.prems by (intro Cons.IH) auto
    moreover have "{fst p .. max (snd p) (snd a)} = {fst p .. snd p} \<union> {fst a .. snd a}"
      using True le by auto
    ultimately show ?thesis using True by (simp add: Un_assoc)
  next
    case False
    have "dom_set (simplify_merge a rest) = dom_set (a # rest)"
      using Cons.prems by (intro Cons.IH) auto
    then show ?thesis using False by simp
  qed
qed

lemma dom_set_sort_key: "dom_set (sort_key f d) = dom_set d"
  by (simp add: dom_set_def)

lemma dom_set_simplify_domain: "dom_set (simplify_domain d) = dom_set d"
proof (cases d)
  case Nil
  then show ?thesis by (simp add: simplify_domain_def)
next
  case (Cons x rest)
  note d = this
  show ?thesis
  proof (cases "rest = []")
    case True
    then show ?thesis using d by (simp add: simplify_domain_def)
  next
    case ne: False
    show ?thesis
    proof (cases "fst x \<le> snd x \<and> simplify_scan (snd x) rest")
      case True
      then show ?thesis using ne d simplify_domain_fast[of rest x] by simp
    next
      case False
      obtain s ss where ss: "sort_key fst d = s # ss"
        using d by (cases "sort_key fst d") (auto dest: arg_cong[where f=length])
      have "sorted (map fst (s # ss))" using sorted_sort_key[of fst d] ss by simp
      then have "dom_set (simplify_merge s ss) = dom_set (s # ss)"
        by (rule dom_set_simplify_merge)
      also have "\<dots> = dom_set d" using dom_set_sort_key[of fst d] ss by simp
      finally show ?thesis
        using simplify_domain_slow[OF ne False] ss unfolding d by simp
    qed
  qed
qed

lemma clip_interval:
  "{(if mn > l then mn else l) .. (if mx < h then mx else h)} = {l .. h} \<inter> {mn .. (mx::int)}"
  by auto

lemma clip_outside:
  "\<not> (l \<le> mx \<and> h \<ge> mn) \<Longrightarrow> {l .. h} \<inter> {mn .. (mx::int)} = {}"
  by auto

lemma dom_set_clip:
  "dom_set (map (\<lambda>d. ((if mn > fst d then mn else fst d), (if mx < snd d then mx else snd d)))
                 (filter (\<lambda>d. fst d \<le> mx \<and> snd d \<ge> mn) dom1))
     = dom_set dom1 \<inter> {mn .. mx}"
proof -
  define f :: "interval \<Rightarrow> interval"
    where "f = (\<lambda>d. ((if mn > fst d then mn else fst d), (if mx < snd d then mx else snd d)))"
  define P :: "interval \<Rightarrow> bool"
    where "P = (\<lambda>d. fst d \<le> mx \<and> snd d \<ge> mn)"
  have inside: "{fst (f d) .. snd (f d)} = {fst d .. snd d} \<inter> {mn .. mx}" for d
    unfolding f_def fst_conv snd_conv by (rule clip_interval)
  have outside: "{fst d .. snd d} \<inter> {mn .. mx} = {}" if "\<not> P d" for d
    using that unfolding P_def by (rule clip_outside)
  have "dom_set (map f (filter P dom1)) = dom_set dom1 \<inter> {mn .. mx}"
  proof (induction dom1)
    case Nil
    show ?case by simp
  next
    case (Cons d dom1)
    show ?case
    proof (cases "P d")
      case True
      then have "dom_set (map f (filter P (d # dom1)))
                   = {fst (f d) .. snd (f d)} \<union> dom_set (map f (filter P dom1))"
        by simp
      also have "\<dots> = ({fst d .. snd d} \<inter> {mn .. mx}) \<union> (dom_set dom1 \<inter> {mn .. mx})"
        by (simp only: inside Cons.IH)
      also have "\<dots> = dom_set (d # dom1) \<inter> {mn .. mx}"
        by (simp only: dom_set_Cons Int_Un_distrib2)
      finally show ?thesis .
    next
      case False
      then have "dom_set (map f (filter P (d # dom1))) = dom_set (map f (filter P dom1))"
        by simp
      also have "\<dots> = ({fst d .. snd d} \<inter> {mn .. mx}) \<union> (dom_set dom1 \<inter> {mn .. mx})"
        by (simp only: outside[OF False] Cons.IH Un_empty_left)
      also have "\<dots> = dom_set (d # dom1) \<inter> {mn .. mx}"
        by (simp only: dom_set_Cons Int_Un_distrib2)
      finally show ?thesis .
    qed
  qed
  then show ?thesis unfolding f_def P_def .
qed

lemma dom_set_take_drop: "dom_set (take n d) \<union> dom_set (drop n d) = dom_set d"
  using dom_set_append[of "take n d" "drop n d"] by simp

lemma dom_set_or_empty_None [simp]: "dom_set (or_empty None) = {}"
  by (simp add: or_empty_def)

lemma or_empty_Some [simp]: "or_empty (Some d) = d"
  by (simp add: or_empty_def)

lemma dom_set_domain_intersection_r:
  "dom_set (domain_intersection_r dom1 dom2 r)
     = dom_set (or_empty r) \<union> (dom_set dom1 \<inter> dom_set dom2)"
proof (induction dom1 dom2 r rule: domain_intersection_r.induct)
  case (1 dom1 dom2 r)
  consider (empty) "length dom1 = 0 \<or> length dom2 = 0"
    | (single) "length dom1 = 1" "length dom2 = 1"
    | (swap) "length dom1 = 1" "length dom2 \<noteq> 0" "length dom2 \<noteq> 1"
    | (loop) "length dom1 \<noteq> 0" "length dom1 \<noteq> 1" "length dom2 = 1"
    | (split) "length dom1 \<noteq> 0" "length dom1 \<noteq> 1" "length dom2 \<noteq> 0" "length dom2 \<noteq> 1"
    by blast
  then show ?case
  proof cases
    case empty
    then show ?thesis by (subst domain_intersection_r.simps) auto
  next
    case single
    then obtain b1 b2 where "dom1 = [b1]" "dom2 = [b2]"
      by (auto simp: length_Suc_conv)
    then show ?thesis by (subst domain_intersection_r.simps) (auto simp: Let_def)
  next
    case swap
    then have "domain_intersection_r dom1 dom2 r = domain_intersection_r dom2 dom1 r"
      by (subst domain_intersection_r.simps) simp
    then show ?thesis using 1(1) swap by auto
  next
    case loop
    then obtain b2 where b2: "dom2 = [b2]" by (auto simp: length_Suc_conv)
    show ?thesis using loop unfolding b2
      by (subst domain_intersection_r.simps) (simp add: Let_def dom_set_clip Int_commute del: One_nat_def)
  next
    case split
    define i where "i = length dom1 div 2"
    define j where "j = length dom2 div 2"
    define d1 where "d1 = take i dom1"
    define d2 where "d2 = drop i dom1"
    define d3 where "d3 = take j dom2"
    define d4 where "d4 = drop j dom2"
    define e1 where "e1 = domain_intersection_r d1 d3 r"
    define e2 where "e2 = domain_intersection_r d1 d4 (Some e1)"
    define e3 where "e3 = domain_intersection_r d2 d3 (Some e2)"
    define e4 where "e4 = domain_intersection_r d2 d4 (Some e3)"
    note defs = i_def j_def d1_def d2_def d3_def d4_def e1_def e2_def e3_def e4_def
    have ne: "\<not> (length dom1 = 0 \<or> length dom2 = 0)" using split by simp
    have s1: "dom_set e1 = dom_set (or_empty r) \<union> (dom_set d1 \<inter> dom_set d3)"
      unfolding defs by (rule 1(2)[OF ne split(2) split(4)]) (rule refl)+
    have s2: "dom_set e2 = dom_set e1 \<union> (dom_set d1 \<inter> dom_set d4)"
      using 1(3)[OF ne split(2) split(4) i_def j_def d1_def d2_def d3_def d4_def e1_def]
      unfolding e2_def by simp
    have s3: "dom_set e3 = dom_set e2 \<union> (dom_set d2 \<inter> dom_set d3)"
      using 1(4)[OF ne split(2) split(4) i_def j_def d1_def d2_def d3_def d4_def e1_def e2_def]
      unfolding e3_def by simp
    have s4: "dom_set e4 = dom_set e3 \<union> (dom_set d2 \<inter> dom_set d4)"
      using 1(5)[OF ne split(2) split(4) i_def j_def d1_def d2_def d3_def d4_def e1_def e2_def e3_def]
      unfolding e4_def by simp
    have u1: "dom_set d1 \<union> dom_set d2 = dom_set dom1"
      unfolding d1_def d2_def by (rule dom_set_take_drop)
    have u2: "dom_set d3 \<union> dom_set d4 = dom_set dom2"
      unfolding d3_def d4_def by (rule dom_set_take_drop)
    have e4: "dom_set e4 = dom_set (or_empty r) \<union> (dom_set dom1 \<inter> dom_set dom2)"
      unfolding s4 s3 s2 s1 u1[symmetric] u2[symmetric] by blast
    have "domain_intersection_r dom1 dom2 r
            = (case r of None \<Rightarrow> simplify_domain e4 | Some _ \<Rightarrow> e4)"
      using split unfolding defs
      by (subst domain_intersection_r.simps) (simp add: Let_def)
    then show ?thesis using e4 by (simp add: dom_set_simplify_domain split: option.splits)
  qed
qed

subsection \<open>Canonical form of the output of simplify_domain\<close>

text \<open>
  C4, as the specification words it: the output of \<open>simplify_domain\<close> is sorted by
  \<open>lo\<close>, has no empty interval, and consecutive intervals satisfy
  \<open>hi + 1 < lo'\<close>. The code keeps two touching intervals apart: both the
  fast path (\<^verbatim>\<open>next[0] <= prevR\<close>) and the merging loop
  (\<^verbatim>\<open>prev[1] >= next[0]\<close>) only react to intervals that share a point. And an
  empty interval that is not alone in the input survives the merging loop.
\<close>

theorem simplify_domain_canonical_counterexample:
  "\<not> separated 1 (simplify_domain [(0, 1), (2, 3)])
   \<and> \<not> nonempty_intervals (simplify_domain [(5, 3), (7, 8)])"
  by (simp add: simplify_domain_def)

text \<open>
  C4, amended: for every list of non-empty intervals (\<open>lo \<le> hi\<close>), the output of
  \<open>simplify_domain\<close> is sorted by \<open>lo\<close>, every interval of the output is non-empty,
  and consecutive intervals are disjoint and in order, \<open>hi < lo'\<close>.
\<close>

theorem simplify_domain_canonical:
  assumes "nonempty_intervals d"
  shows "sorted (map fst (simplify_domain d))
         \<and> nonempty_intervals (simplify_domain d)
         \<and> separated 0 (simplify_domain d)"
proof -
  have sep: "separated 0 (simplify_domain d)"
    using assms by (rule simplify_domain_separated)
  have "sorted (map fst (simplify_domain d))"
    using sep by (intro separated_sorted[of 0]) simp_all
  moreover have "nonempty_intervals (simplify_domain d)"
    using sep by (rule separated_nonempty)
  ultimately show ?thesis using sep by simp
qed

theorem simplify_domain_canonical_witness:
  "nonempty_intervals [(5, 9), (0, 1), (2, 3), (8, 12)]
   \<and> simplify_domain [(5, 9), (0, 1), (2, 3), (8, 12)] = [(0, 1), (2, 3), (5, 12)]
   \<and> sorted (map fst (simplify_domain [(5, 9), (0, 1), (2, 3), (8, 12)]))
   \<and> nonempty_intervals (simplify_domain [(5, 9), (0, 1), (2, 3), (8, 12)])
   \<and> separated 0 (simplify_domain [(5, 9), (0, 1), (2, 3), (8, 12)])"
proof -
  have h: "nonempty_intervals [(5, 9), (0, 1), (2, 3), (8, 12)]" by simp
  have e: "simplify_domain [(5, 9), (0, 1), (2, 3), (8, 12)] = [(0, 1), (2, 3), (5, 12)]"
    by (simp add: simplify_domain_def)
  show ?thesis using h e simplify_domain_canonical[OF h] by simp
qed

subsection \<open>The set of integers of an intersection\<close>

text \<open>
  C3: \<open>domain_intersection a b\<close> stands for exactly the integers that are in both
  \<open>a\<close> and \<open>b\<close>, and \<open>domain_intersection b a\<close> stands for the same set. This
  holds for every pair of interval lists, so in particular for canonical ones.
\<close>

theorem domain_intersection_set:
  "dom_set (domain_intersection a b) = dom_set a \<inter> dom_set b
   \<and> dom_set (domain_intersection a b) = dom_set (domain_intersection b a)"
  by (simp add: domain_intersection_def dom_set_domain_intersection_r Int_commute)

theorem domain_intersection_set_witness:
  "canonical [(0, 1), (5, 6), (9, 20)] \<and> canonical [(1, 5), (7, 10)]
   \<and> domain_intersection [(0, 1), (5, 6), (9, 20)] [(1, 5), (7, 10)] = [(1, 1), (5, 5), (9, 10)]
   \<and> dom_set (domain_intersection [(0, 1), (5, 6), (9, 20)] [(1, 5), (7, 10)])
       = dom_set [(0, 1), (5, 6), (9, 20)] \<inter> dom_set [(1, 5), (7, 10)]
   \<and> dom_set (domain_intersection [(0, 1), (5, 6), (9, 20)] [(1, 5), (7, 10)])
       = dom_set (domain_intersection [(1, 5), (7, 10)] [(0, 1), (5, 6), (9, 20)])"
proof -
  have c: "canonical [(0, 1), (5, 6), (9, 20)] \<and> canonical [(1, 5), (7, 10)]"
    by (simp add: canonical_def FD_SUP_def)
  have e: "domain_intersection [(0, 1), (5, 6), (9, 20)] [(1, 5), (7, 10)]
             = [(1, 1), (5, 5), (9, 10)]"
    by (simp add: domain_intersection_def domain_intersection_r.simps simplify_domain_def
          or_empty_def Let_def)
  show ?thesis
    using c e domain_intersection_set[of "[(0, 1), (5, 6), (9, 20)]" "[(1, 5), (7, 10)]"]
    by blast
qed

subsection \<open>The complement and its union with the domain\<close>

text \<open>
  C1 asks that \<open>domain_union (domain_complement d) d\<close> is \<open>[(0, FD_SUP)]\<close> and that
  \<open>domain_intersection (domain_complement d) d\<close> is empty, for every canonical
  \<open>d\<close>. The loop of \<^verbatim>\<open>domain_complement\<close> advances with the right end of the
  \<^emph>\<open>first\<close> interval (\<^verbatim>\<open>d[0][1] + 1\<close>), so from the second interval on the
  complement starts again right after the first one. The theorem evaluates the
  code at the canonical domain \<open>[(0, 1), (5, 6)]\<close>: the complement overlaps
  itself and contains 5 and 6, which are in the domain.
\<close>

theorem domain_complement_failing_input:
  "canonical [(0, 1), (5, 6)]
   \<and> domain_complement [(0, 1), (5, 6)] = [(2, 4), (2, FD_SUP)]
   \<and> domain_intersection (domain_complement [(0, 1), (5, 6)]) [(0, 1), (5, 6)] = [(5, 6)]
   \<and> domain_union (domain_complement [(0, 1), (5, 6)]) [(0, 1), (5, 6)] = [(0, 1), (2, FD_SUP)]
   \<and> 5 \<in> dom_set (domain_complement [(0, 1), (5, 6)]) \<inter> dom_set [(0, 1), (5, 6)]"
proof -
  have c: "canonical [(0, 1), (5, 6)]"
    by (simp add: canonical_def FD_SUP_def)
  have k: "domain_complement [(0, 1), (5, 6)] = [(2, 4), (2, FD_SUP)]"
    by (simp add: domain_complement_def FD_SUP_def)
  have i: "domain_intersection [(2, 4), (2, FD_SUP)] [(0, 1), (5, 6)] = [(5, 6)]"
    by (simp add: domain_intersection_def domain_intersection_r.simps simplify_domain_def
          or_empty_def Let_def FD_SUP_def)
  have u: "domain_union [(2, 4), (2, FD_SUP)] [(0, 1), (5, 6)] = [(0, 1), (2, FD_SUP)]"
    by (simp add: domain_union_def simplify_domain_def FD_SUP_def)
  have m: "5 \<in> dom_set [(2, 4), (2, FD_SUP)] \<inter> dom_set [(0, 1), (5, 6)]"
    by (simp add: FD_SUP_def)
  show ?thesis using c i u m unfolding k by simp
qed

subsection \<open>The sums of dom_plus\<close>

lemma sumset_Un1: "sumset (A \<union> B) C = sumset A C \<union> sumset B C"
  by (auto simp: sumset_def)

lemma sumset_Un2: "sumset A (B \<union> C) = sumset A B \<union> sumset A C"
  by (auto simp: sumset_def)

lemma sumset_empty [simp]: "sumset {} A = {}" "sumset A {} = {}"
  by (auto simp: sumset_def)

lemma sumset_interval:
  assumes "l1 \<le> h1" "l2 \<le> h2"
  shows "sumset {l1 .. h1} {l2 .. h2} = {l1 + l2 .. h1 + h2}"
proof
  show "sumset {l1 .. h1} {l2 .. h2} \<subseteq> {l1 + l2 .. h1 + h2}"
    by (auto simp: sumset_def)
  show "{l1 + l2 .. h1 + h2} \<subseteq> sumset {l1 .. h1} {l2 .. h2}"
  proof
    fix z assume z: "z \<in> {l1 + l2 .. h1 + h2}"
    define x where "x = max l1 (z - h2)"
    have "x \<in> {l1 .. h1}" "z - x \<in> {l2 .. h2}"
      using z assms by (auto simp: x_def)
    then have "(x, z - x) \<in> {l1 .. h1} \<times> {l2 .. h2}" by simp
    then have "(\<lambda>(x, y). x + y) (x, z - x) \<in> sumset {l1 .. h1} {l2 .. h2}"
      unfolding sumset_def by (rule imageI)
    then show "z \<in> sumset {l1 .. h1} {l2 .. h2}" by simp
  qed
qed

lemma clamped_sums_sumset: "clamped_sums A B = (\<lambda>z. min z FD_SUP) ` sumset A B"
  by (auto simp: clamped_sums_def sumset_def image_iff)

lemma clamp_interval:
  assumes "l \<le> h"
  shows "(\<lambda>z. min z S) ` {l .. h} = {min S l .. min S (h::int)}"
proof
  show "(\<lambda>z. min z S) ` {l .. h} \<subseteq> {min S l .. min S h}" by auto
  show "{min S l .. min S h} \<subseteq> (\<lambda>z. min z S) ` {l .. h}"
  proof
    fix z assume z: "z \<in> {min S l .. min S h}"
    show "z \<in> (\<lambda>z. min z S) ` {l .. h}"
    proof (cases "z < S")
      case True
      then have "z \<in> {l .. h}" "min z S = z" using z by auto
      then show ?thesis by (metis imageI)
    next
      case False
      then have "z = S" "S \<le> h" using z by auto
      then have "h \<in> {l .. h}" "min h S = z" using assms by auto
      then show ?thesis by (metis imageI)
    qed
  qed
qed

text \<open>The pairwise interval sums collected by \<open>dom_plus\<close>.\<close>

lemma dom_set_pairs_row:
  assumes "fst i1 \<le> snd i1" "nonempty_intervals d2"
  shows "dom_set (map (\<lambda>i2. (min FD_SUP (fst i1 + fst i2), min FD_SUP (snd i1 + snd i2))) d2)
           = (\<lambda>z. min z FD_SUP) ` sumset {fst i1 .. snd i1} (dom_set d2)"
  using assms(2)
proof (induction d2)
  case Nil
  show ?case by simp
next
  case (Cons i2 d2)
  have ne: "fst i2 \<le> snd i2" using Cons.prems by simp
  have "{min FD_SUP (fst i1 + fst i2) .. min FD_SUP (snd i1 + snd i2)}
          = (\<lambda>z. min z FD_SUP) ` sumset {fst i1 .. snd i1} {fst i2 .. snd i2}"
    using assms(1) ne by (simp add: sumset_interval clamp_interval)
  then show ?case using Cons by (simp add: sumset_Un2 image_Un)
qed

lemma dom_set_pairs:
  assumes "nonempty_intervals d1" "nonempty_intervals d2"
  shows "dom_set (concat (map (\<lambda>i1. map (\<lambda>i2.
            (min FD_SUP (fst i1 + fst i2), min FD_SUP (snd i1 + snd i2))) d2) d1))
           = clamped_sums (dom_set d1) (dom_set d2)"
  using assms(1)
proof (induction d1)
  case Nil
  show ?case by (simp add: clamped_sums_sumset)
next
  case (Cons i1 d1)
  then show ?case
    using dom_set_pairs_row[of i1 d2] assms(2)
    by (simp add: clamped_sums_sumset sumset_Un1 image_Un)
qed


text \<open>
  Closing a gap of an operand that is narrower than every interval of the other
  operand does not change the set of sums.
\<close>

lemma width_less_min: "width_less x (width_min a b) \<longleftrightarrow> width_less x a \<and> width_less x b"
  by (cases a; cases b) auto

lemma smallest_width_le:
  "i \<in> set e \<Longrightarrow> width_less x (dom_smallest_interval_width e) \<Longrightarrow> x < snd i - fst i + 1"
  by (induction e) (auto simp: dom_smallest_interval_width_def width_less_min)

lemma close_gap_interval:
  assumes "p0 \<le> p1" "n0 \<le> n1" "p1 < n0" "l \<le> h" "n0 - p1 < h - l + 1"
  shows "sumset {p0 .. n1} {l .. h} = sumset ({p0 .. p1} \<union> {n0 .. n1}) {l .. (h::int)}"
proof -
  have "sumset {p0 .. n1} {l .. h} = {p0 + l .. n1 + h}"
    using assms by (intro sumset_interval) auto
  moreover have "sumset {p0 .. p1} {l .. h} = {p0 + l .. p1 + h}"
    using assms by (intro sumset_interval) auto
  moreover have "sumset {n0 .. n1} {l .. h} = {n0 + l .. n1 + h}"
    using assms by (intro sumset_interval) auto
  moreover have "{p0 + l .. n1 + h} = {p0 + l .. p1 + h} \<union> {n0 + l .. n1 + h}"
    using assms by auto
  ultimately show ?thesis by (simp add: sumset_Un1)
qed

lemma close_gap_domain:
  assumes "p0 \<le> p1" "n0 \<le> n1" "p1 < n0"
    and "\<forall>i \<in> set e. fst i \<le> snd i \<and> n0 - p1 < snd i - fst i + 1"
  shows "sumset {p0 .. n1} (dom_set e) = sumset ({p0 .. p1} \<union> {n0 .. n1}) (dom_set e)"
  using assms(4)
proof (induction e)
  case Nil
  show ?case by simp
next
  case (Cons i e)
  have "sumset {p0 .. n1} {fst i .. snd i} = sumset ({p0 .. p1} \<union> {n0 .. n1}) {fst i .. snd i}"
    using assms(1-3) Cons.prems by (intro close_gap_interval) auto
  moreover have "sumset {p0 .. n1} (dom_set e) = sumset ({p0 .. p1} \<union> {n0 .. n1}) (dom_set e)"
    using Cons by simp
  ultimately show ?case by (simp add: sumset_Un2)
qed

lemma dom_close_gaps_loop_hd:
  "\<exists>h ds. dom_close_gaps_loop p rest gap = (fst p, h) # ds"
proof (induction rest arbitrary: p)
  case Nil
  show ?case by (cases p) simp
next
  case (Cons a rest)
  show ?case
  proof (cases "width_less (fst a - snd p) gap")
    case True
    then show ?thesis using Cons[of "(fst p, snd a)"] by auto
  next
    case False
    then show ?thesis by (cases p) auto
  qed
qed

lemma separated_Cons2:
  "separated g (p # n # rest) \<longleftrightarrow> fst p \<le> snd p \<and> snd p + g < fst n \<and> separated g (n # rest)"
  by simp

lemma separated_merge:
  "separated 0 (p # n # rest) \<Longrightarrow> separated 0 ((fst p, snd n) # rest)"
  by (cases rest) auto

lemma dom_close_gaps_loop_separated:
  "separated 0 (p # rest) \<Longrightarrow> separated 0 (dom_close_gaps_loop p rest gap)"
proof (induction rest arbitrary: p)
  case Nil
  then show ?case by simp
next
  case (Cons n rest)
  show ?case
  proof (cases "width_less (fst n - snd p) gap")
    case True
    then show ?thesis using Cons.IH[OF separated_merge[OF Cons.prems]] by simp
  next
    case False
    have s: "separated 0 (dom_close_gaps_loop n rest gap)"
      using Cons.prems by (intro Cons.IH) simp
    obtain h ds where e: "dom_close_gaps_loop n rest gap = (fst n, h) # ds"
      using dom_close_gaps_loop_hd by blast
    show ?thesis using False s e Cons.prems by simp
  qed
qed

lemma dom_close_gaps_loop_sumset:
  assumes "\<forall>i \<in> set e. fst i \<le> snd i \<and> (\<forall>x. width_less x gap \<longrightarrow> x < snd i - fst i + 1)"
  shows "separated 0 (p # rest) \<Longrightarrow>
         sumset (dom_set (dom_close_gaps_loop p rest gap)) (dom_set e)
           = sumset (dom_set (p # rest)) (dom_set e)"
proof (induction rest arbitrary: p)
  case Nil
  show ?case by simp
next
  case (Cons n rest)
  have p: "fst p \<le> snd p" "snd p < fst n" "fst n \<le> snd n"
    using Cons.prems by (cases rest; simp)+
  show ?case
  proof (cases "width_less (fst n - snd p) gap")
    case True
    have w: "\<forall>i \<in> set e. fst i \<le> snd i \<and> fst n - snd p < snd i - fst i + 1"
      using assms True by blast
    have "sumset (dom_set (dom_close_gaps_loop (fst p, snd n) rest gap)) (dom_set e)
            = sumset (dom_set ((fst p, snd n) # rest)) (dom_set e)"
      by (rule Cons.IH[OF separated_merge[OF Cons.prems]])
    also have "\<dots> = sumset {fst p .. snd n} (dom_set e) \<union> sumset (dom_set rest) (dom_set e)"
      by (simp add: sumset_Un1)
    also have "sumset {fst p .. snd n} (dom_set e)
                 = sumset ({fst p .. snd p} \<union> {fst n .. snd n}) (dom_set e)"
      using p w by (intro close_gap_domain) auto
    finally show ?thesis using True by (simp add: sumset_Un1 Un_assoc)
  next
    case False
    have "sumset (dom_set (dom_close_gaps_loop n rest gap)) (dom_set e)
            = sumset (dom_set (n # rest)) (dom_set e)"
      using Cons.prems by (intro Cons.IH) simp
    then show ?thesis using False by (simp add: sumset_Un1)
  qed
qed

lemma dom_close_gaps_separated:
  "separated 0 d \<Longrightarrow> separated 0 (dom_close_gaps d gap)"
  by (cases d) (simp_all add: dom_close_gaps_def dom_close_gaps_loop_separated)

lemma dom_close_gaps_sumset:
  assumes "separated 0 d" "nonempty_intervals e"
  shows "sumset (dom_set (dom_close_gaps d (dom_smallest_interval_width e))) (dom_set e)
           = sumset (dom_set d) (dom_set e)"
proof (cases d)
  case Nil
  then show ?thesis by (simp add: dom_close_gaps_def)
next
  case (Cons p rest)
  have "\<forall>i \<in> set e. fst i \<le> snd i
          \<and> (\<forall>x. width_less x (dom_smallest_interval_width e) \<longrightarrow> x < snd i - fst i + 1)"
    using assms(2) smallest_width_le by (auto simp: nonempty_intervals_iff)
  then show ?thesis
    using dom_close_gaps_loop_sumset[of e "dom_smallest_interval_width e" p rest] assms(1) Cons
    by (simp add: dom_close_gaps_def)
qed

lemma sumset_commute: "sumset A B = sumset B A"
proof -
  have "sumset A B \<subseteq> sumset B A" for A B
  proof
    fix z assume "z \<in> sumset A B"
    then obtain x y where "x \<in> A" "y \<in> B" "z = x + y" by (auto simp: sumset_def)
    then have "(y, x) \<in> B \<times> A" "z = (\<lambda>(x, y). x + y) (y, x)" by auto
    then show "z \<in> sumset B A" unfolding sumset_def by (rule image_eqI[rotated])
  qed
  then show ?thesis by blast
qed

lemma dom_close_gaps2_sumset:
  "separated 0 d1 \<Longrightarrow> separated 0 d2 \<Longrightarrow>
     sumset (dom_set (fst (dom_close_gaps2 d1 d2))) (dom_set (snd (dom_close_gaps2 d1 d2)))
       = sumset (dom_set d1) (dom_set d2)
     \<and> separated 0 (fst (dom_close_gaps2 d1 d2)) \<and> separated 0 (snd (dom_close_gaps2 d1 d2))"
proof (induction d1 d2 rule: dom_close_gaps2.induct)
  case (1 d1 d2)
  define d1' where "d1' = dom_close_gaps d1 (dom_smallest_interval_width d2)"
  define d2' where "d2' = dom_close_gaps d2 (dom_smallest_interval_width d1')"
  define change where
    "change = (int (length d1) - int (length d1')) + (int (length d2) - int (length d2'))"
  have s1: "separated 0 d1'" unfolding d1'_def using "1.prems"(1) by (rule dom_close_gaps_separated)
  have s2: "separated 0 d2'" unfolding d2'_def using "1.prems"(2) by (rule dom_close_gaps_separated)
  have e1: "sumset (dom_set d1') (dom_set d2) = sumset (dom_set d1) (dom_set d2)"
    unfolding d1'_def using "1.prems" by (intro dom_close_gaps_sumset separated_nonempty)
  have "sumset (dom_set d2') (dom_set d1') = sumset (dom_set d2) (dom_set d1')"
    unfolding d2'_def using "1.prems"(2) s1 by (intro dom_close_gaps_sumset separated_nonempty)
  then have e2: "sumset (dom_set d1') (dom_set d2') = sumset (dom_set d1) (dom_set d2)"
    using e1 by (simp add: sumset_commute)
  have unfold: "dom_close_gaps2 d1 d2 = (if change > 0 then dom_close_gaps2 d1' d2' else (d1', d2'))"
    unfolding change_def d2'_def d1'_def by (subst dom_close_gaps2.simps) (simp add: Let_def)
  show ?case
  proof (cases "change > 0")
    case True
    have "sumset (dom_set (fst (dom_close_gaps2 d1' d2'))) (dom_set (snd (dom_close_gaps2 d1' d2')))
            = sumset (dom_set d1') (dom_set d2')
          \<and> separated 0 (fst (dom_close_gaps2 d1' d2')) \<and> separated 0 (snd (dom_close_gaps2 d1' d2'))"
      using "1.IH"[OF d1'_def d2'_def change_def True s1 s2] .
    then show ?thesis using True unfold e2 by simp
  next
    case False
    then show ?thesis using unfold e2 s1 s2 by simp
  qed
qed

lemma separated_mono: "separated 1 d \<Longrightarrow> separated 0 d"
  by (induction "1::int" d rule: separated.induct) auto

lemma dom_plus_set:
  assumes "separated 0 a" "separated 0 b"
  shows "dom_set (dom_plus a b) = clamped_sums (dom_set a) (dom_set b)"
proof -
  define d1 where "d1 = fst (dom_close_gaps2 a b)"
  define d2 where "d2 = snd (dom_close_gaps2 a b)"
  have c: "sumset (dom_set d1) (dom_set d2) = sumset (dom_set a) (dom_set b)"
    and s: "separated 0 d1" "separated 0 d2"
    using dom_close_gaps2_sumset[OF assms] unfolding d1_def d2_def by simp_all
  have "dom_set (dom_plus a b) = clamped_sums (dom_set d1) (dom_set d2)"
    unfolding dom_plus_def Let_def d1_def[symmetric] d2_def[symmetric] dom_set_simplify_domain
    using s by (intro dom_set_pairs separated_nonempty)
  then show ?thesis using c by (simp add: clamped_sums_sumset)
qed

text \<open>
  C2: for canonical domains \<open>a\<close> and \<open>b\<close>, \<open>dom_plus a b\<close> stands for exactly the
  set \<open>{min(x + y, SUP) : x in a, y in b}\<close>; the gaps that \<open>dom_close_gaps2\<close>
  closes in the operands first add no sum and lose none.
\<close>

theorem dom_plus_exact:
  assumes "canonical a" "canonical b"
  shows "dom_set (dom_plus a b) = clamped_sums (dom_set a) (dom_set b)"
  using assms by (intro dom_plus_set separated_mono) (simp_all add: canonical_def)

theorem dom_plus_exact_witness:
  "canonical [(0, 0), (2, 2), (10, 10)] \<and> canonical [(0, 2), (10, 11), (99999999, 100000000)]
   \<and> dom_close_gaps2 [(0, 0), (2, 2), (10, 10)] [(0, 2), (10, 11), (99999999, 100000000)]
       = ([(0, 0), (2, 2), (10, 10)], [(0, 2), (10, 11), (99999999, 100000000)])
   \<and> dom_close_gaps2 [(0, 0), (2, 2), (10, 10)] [(0, 2), (10, 12)]
       = ([(0, 2), (10, 10)], [(0, 2), (10, 12)])
   \<and> dom_plus [(0, 0), (2, 2), (10, 10)] [(0, 2), (10, 11), (99999999, 100000000)]
       = [(0, 4), (10, 13), (20, 21), (99999999, 100000000)]
   \<and> dom_set (dom_plus [(0, 0), (2, 2), (10, 10)] [(0, 2), (10, 11), (99999999, 100000000)])
       = clamped_sums (dom_set [(0, 0), (2, 2), (10, 10)])
           (dom_set [(0, 2), (10, 11), (99999999, 100000000)])"
proof -
  have c: "canonical [(0, 0), (2, 2), (10, 10)]"
    "canonical [(0, 2), (10, 11), (99999999, 100000000)]"
    by (simp_all add: canonical_def FD_SUP_def)
  have g: "dom_close_gaps2 [(0, 0), (2, 2), (10, 10)] [(0, 2), (10, 11), (99999999, 100000000)]
             = ([(0, 0), (2, 2), (10, 10)], [(0, 2), (10, 11), (99999999, 100000000)])"
    by (simp add: dom_close_gaps2.simps dom_close_gaps_def dom_smallest_interval_width_def)
  have g': "dom_close_gaps2 [(0, 0), (2, 2), (10, 10)] [(0, 2), (10, 12)]
             = ([(0, 2), (10, 10)], [(0, 2), (10, 12)])"
    by (simp add: dom_close_gaps2.simps dom_close_gaps_def dom_smallest_interval_width_def)
  have e: "dom_plus [(0, 0), (2, 2), (10, 10)] [(0, 2), (10, 11), (99999999, 100000000)]
             = [(0, 4), (10, 13), (20, 21), (99999999, 100000000)]"
    unfolding dom_plus_def g by (simp add: simplify_domain_def FD_SUP_def)
  show ?thesis using c g g' e dom_plus_exact[OF c] by blast
qed

section \<open>Properties of variables and spaces\<close>

subsection \<open>Declaring a variable\<close>

lemma domain_equal_iff: "domain_equal d1 d2 \<longleftrightarrow> d1 = d2"
proof (cases "length d1 = length d2")
  case True
  then have "list_all (\<lambda>(a, b). \<not> (fst a \<noteq> fst b \<or> snd a \<noteq> snd b)) (zip d1 d2) \<longleftrightarrow> d1 = d2"
    by (induction d1 d2 rule: list_induct2) (auto simp: prod_eq_iff)
  then show ?thesis using True by simp
next
  case False
  then show ?thesis by auto
qed

lemma dom_v_set_dom: "dom_v (set_dom f d) = d"
  by (simp add: set_dom_def domain_equal_iff del: domain_equal.simps)

lemma step_v_set_dom:
  "step_v (set_dom f d) = (if dom_v f = d then step_v f else step_v f + 1)"
  by (simp add: set_dom_def domain_equal_iff del: domain_equal.simps)




subsection \<open>Names of temporaries\<close>

lemma temp_eq: "temp s dm = (Tmp (fst s + 1), (fst s + 1, decl (snd s) (Single (Tmp (fst s + 1))) dm))"
  by (simp add: temp_def Let_def)



lemma scale_count: "fst s \<le> fst (state_after (scale s k v out) s)"
  by (cases out) (simp_all add: scale_def temp_eq Let_def state_after_def eq_c_def split_beta)

lemma counter_mono_simps [simp]:
  "counter_mono s (Normal x s') \<longleftrightarrow> fst s \<le> fst s'"
  "counter_mono s (Raised e s') \<longleftrightarrow> fst s \<le> fst s'"
  "counter_mono s Timeout"
  by (simp_all add: counter_mono_def)

















subsection \<open>scale, product and sum\<close>

lemma decl1_propagators: "propagators (decl1 S n dm) = propagators S"
  by (simp add: decl1_def split: option.splits)

lemma decl1_fresh:
  "vars S n = None \<Longrightarrow> vars (decl1 S n dm) n = Some (FDVar dm None)"
  by (simp add: decl1_def)

lemma initprop_newprop: "initprop (newprop S p) q = initprop S q"
  by (simp add: initprop_def newprop_def)

lemma step_fn_initprop: "step_fn (initprop S p) = snd (snd p)"
  by (simp add: initprop_def initprop_in_def)

lemma initprop_propagators_update: "initprop (S\<lparr>propagators := ps\<rparr>) q = initprop S q"
  by (simp add: initprop_def)

text \<open>
  C8: \<open>scale\<close> with a negative factor throws a usage error, which is not \<open>Fail\<close>,
  and leaves the counter and the space as they were; with factor 0 it is
  \<open>eq\<close> of a new temporary declared with \<open>[(0, 0)]\<close> and the product name; with
  factor 1 it is \<open>eq\<close> of the variable and the product name; with a factor above 1
  it appends the two scaling propagators, on the given product name or on a new
  temporary.
\<close>

theorem scale_cases:
  "(k < 0 \<longrightarrow>
      scale s k v p = Raised (UsageError ''scale: negative factors not supported.'') s
      \<and> UsageError ''scale: negative factors not supported.'' \<noteq> Fail)
   \<and> scale s 0 v p =
       (let (t, s') = temp s (Some [(0, 0)]); (r, S) = eq_c (snd s') t p
        in Normal r (fst s', S))
   \<and> (vars (snd s) (Tmp (fst s + 1)) = None \<longrightarrow>
        vars (snd (snd (temp s (Some [(0, 0)])))) (fst (temp s (Some [(0, 0)])))
          = Some \<lparr>dom_v = [(0, 0)], step_v = 0\<rparr>)
   \<and> scale s 1 v p = (let (r, S) = eq_c (snd s) v p in Normal r (fst s, S))
   \<and> (k > 1 \<longrightarrow>
        scale s k v (Some pn) =
          Normal This (fst s, (snd s)\<lparr>propagators := propagators (snd s) @
             [initprop (snd s) ([v, pn], [v], Scale_prod_step k),
              initprop (snd s) ([v, pn], [pn], Scale_v_step k)]\<rparr>)
        \<and> scale s k v None =
          (let (t, s') = temp s None
           in Normal (Name t) (fst s', (snd s')\<lparr>propagators := propagators (snd s') @
             [initprop (snd s') ([v, t], [v], Scale_prod_step k),
              initprop (snd s') ([v, t], [t], Scale_v_step k)]\<rparr>)))"
proof -
  have neg: "k < 0 \<Longrightarrow>
      scale s k v p = Raised (UsageError ''scale: negative factors not supported.'') s"
    by (simp add: scale_def)
  have zero: "scale s 0 v p =
       (let (t, s') = temp s (Some [(0, 0)]); (r, S) = eq_c (snd s') t p
        in Normal r (fst s', S))"
    by (simp add: scale_def)
  have fresh: "vars (snd s) (Tmp (fst s + 1)) = None \<Longrightarrow>
        vars (snd (snd (temp s (Some [(0, 0)])))) (fst (temp s (Some [(0, 0)])))
          = Some \<lparr>dom_v = [(0, 0)], step_v = 0\<rparr>"
    by (simp add: temp_eq decl1_fresh FDVar_def)
  have one: "scale s 1 v p = (let (r, S) = eq_c (snd s) v p in Normal r (fst s, S))"
    by (simp add: scale_def)
  have big1: "k > 1 \<Longrightarrow> scale s k v (Some pn) =
          Normal This (fst s, (snd s)\<lparr>propagators := propagators (snd s) @
             [initprop (snd s) ([v, pn], [v], Scale_prod_step k),
              initprop (snd s) ([v, pn], [pn], Scale_v_step k)]\<rparr>)"
    by (simp add: scale_def Let_def initprop_newprop) (simp add: newprop_def initprop_propagators_update)
  have big2: "k > 1 \<Longrightarrow> scale s k v None =
          (let (t, s') = temp s None
           in Normal (Name t) (fst s', (snd s')\<lparr>propagators := propagators (snd s') @
             [initprop (snd s') ([v, t], [v], Scale_prod_step k),
              initprop (snd s') ([v, t], [t], Scale_v_step k)]\<rparr>))"
    by (simp add: scale_def Let_def initprop_newprop split_beta) (simp add: newprop_def initprop_propagators_update)
  show ?thesis using neg zero fresh one big1 big2 by blast
qed

theorem scale_cases_witness:
  "scale (1, new_space) (- 2) (Sym ''V'') (Some (Sym ''P''))
      = Raised (UsageError ''scale: negative factors not supported.'') (1, new_space)
   \<and> vars (snd (snd (temp (1, new_space) (Some [(0, 0)])))) (Tmp 2)
      = Some \<lparr>dom_v = [(0, 0)], step_v = 0\<rparr>
   \<and> map step_fn (propagators (snd (case scale (1, new_space) 3 (Sym ''V'') (Some (Sym ''P'')) of
         Normal r s' \<Rightarrow> s' | Raised e s' \<Rightarrow> s' | Timeout \<Rightarrow> (1, new_space))))
      = [Scale_prod_step 3, Scale_v_step 3]"
proof -
  have n: "vars (snd (1::int, new_space)) (Tmp (fst (1::int, new_space) + 1)) = None"
    by (simp add: new_space_def)
  note t = scale_cases[of "- 2" "(1, new_space)" "Sym ''V''" "Some (Sym ''P'')" "Sym ''P''"]
  note u = scale_cases[of 3 "(1, new_space)" "Sym ''V''" "Some (Sym ''P'')" "Sym ''P''"]
  have a: "scale (1, new_space) (- 2) (Sym ''V'') (Some (Sym ''P''))
      = Raised (UsageError ''scale: negative factors not supported.'') (1, new_space)"
    using t by simp
  have b: "vars (snd (snd (temp (1, new_space) (Some [(0, 0)])))) (Tmp 2)
      = Some \<lparr>dom_v = [(0, 0)], step_v = 0\<rparr>"
    using t n by (simp add: temp_eq)
  have c: "scale (1, new_space) 3 (Sym ''V'') (Some (Sym ''P'')) =
          Normal This (1, new_space\<lparr>propagators := propagators new_space @
             [initprop new_space ([Sym ''V'', Sym ''P''], [Sym ''V''], Scale_prod_step 3),
              initprop new_space ([Sym ''V'', Sym ''P''], [Sym ''P''], Scale_v_step 3)]\<rparr>)"
    using u by simp
  show ?thesis unfolding c using a b by (simp add: new_space_def step_fn_initprop)
qed

text \<open>
  C10: \<open>product\<close> of no variables throws nothing and adds no propagator. With a
  result name it changes nothing at all; without one it declares the next
  temporary, unconstrained, and returns its name. \<open>sum\<close> of no variables throws
  its usage error (after the same allocation when no result name is given).
\<close>

theorem product_empty_noop:
  "product_c dv s [] (Some out) = Normal This s
   \<and> product_c dv s [] None
       = Normal (Name (Tmp (fst s + 1)))
           (fst s + 1, decl (snd s) (Single (Tmp (fst s + 1))) None)
   \<and> propagators (decl (snd s) (Single (Tmp (fst s + 1))) None) = propagators (snd s)
   \<and> (vars (snd s) (Tmp (fst s + 1)) = None \<longrightarrow>
        vars (decl (snd s) (Single (Tmp (fst s + 1))) None) (Tmp (fst s + 1))
          = Some \<lparr>dom_v = [(0, FD_SUP)], step_v = 0\<rparr>)
   \<and> sum_c s [] (Some out) = Raised (UsageError ''Space.sum: Nothing to sum!'') s
   \<and> sum_c s [] None
       = Raised (UsageError ''Space.sum: Nothing to sum!'')
           (fst s + 1, decl (snd s) (Single (Tmp (fst s + 1))) None)"
proof -
  have p1: "product_c dv s [] (Some out) = Normal This s"
    by (subst product_c.simps) simp
  have p2: "product_c dv s [] None
       = Normal (Name (Tmp (fst s + 1)))
           (fst s + 1, decl (snd s) (Single (Tmp (fst s + 1))) None)"
    by (subst product_c.simps) (simp add: temp_eq)
  have s1: "sum_c s [] (Some out) = Raised (UsageError ''Space.sum: Nothing to sum!'') s"
    by (subst sum_c.simps) simp
  have s2: "sum_c s [] None
       = Raised (UsageError ''Space.sum: Nothing to sum!'')
           (fst s + 1, decl (snd s) (Single (Tmp (fst s + 1))) None)"
    by (subst sum_c.simps) (simp add: temp_eq)
  show ?thesis using p1 p2 s1 s2 by (simp add: decl1_propagators decl1_fresh FDVar_def)
qed

theorem product_empty_noop_witness:
  "product_c (\<lambda>a b. a) (1, new_space) [] None
       = Normal (Name (Tmp 2)) (2, decl new_space (Single (Tmp 2)) None)
   \<and> vars (decl new_space (Single (Tmp 2)) None) (Tmp 2)
       = Some \<lparr>dom_v = [(0, FD_SUP)], step_v = 0\<rparr>
   \<and> propagators (decl new_space (Single (Tmp 2)) None) = []"
proof -
  have n: "vars (snd (1::int, new_space)) (Tmp (fst (1::int, new_space) + 1)) = None"
    by (simp add: new_space_def)
  have p: "propagators new_space = []" by (simp add: new_space_def)
  show ?thesis
    using product_empty_noop[of "\<lambda>a b. a" "(1, new_space)" "Sym ''X''"] n p by simp
qed

section \<open>The step function of lt\<close>

subsection \<open>Intersecting a canonical domain with one interval\<close>

lemma separated_iff:
  "separated 0 d \<longleftrightarrow> (\<forall>i \<in> set d. fst i \<le> snd i) \<and> sorted_wrt (\<lambda>i j. snd i < fst j) d"
proof (induction d rule: induct_list012)
  case 1
  show ?case by simp
next
  case (2 i)
  show ?case by simp
next
  case (3 i j rest)
  have "separated 0 (i # j # rest) \<longleftrightarrow>
          fst i \<le> snd i \<and> snd i < fst j \<and> separated 0 (j # rest)" by simp
  also have "\<dots> \<longleftrightarrow> fst i \<le> snd i \<and> snd i < fst j
        \<and> (\<forall>k \<in> set (j # rest). fst k \<le> snd k) \<and> sorted_wrt (\<lambda>i j. snd i < fst j) (j # rest)"
    using 3 by simp
  also have "\<dots> \<longleftrightarrow> (\<forall>k \<in> set (i # j # rest). fst k \<le> snd k)
        \<and> sorted_wrt (\<lambda>i j. snd i < fst j) (i # j # rest)"
  proof -
    have "snd i < fst k" if "snd i < fst j" "fst j \<le> snd j" "\<forall>k \<in> set rest. snd j < fst k"
      "k \<in> set (j # rest)" for k
      using that by force
    then show ?thesis by auto
  qed
  finally show ?case .
qed

lemma domain_intersection_single:
  assumes "\<forall>i \<in> set d. fst i \<le> snd i"
    and "b < a \<longrightarrow> (\<forall>i \<in> set d. b < fst i) \<or> (\<forall>i \<in> set d. snd i < a)"
  shows "domain_intersection d [(a, b)] = clip_list a b d"
proof -
  consider (empty) "d = []" | (one) i where "d = [i]" | (more) "length d \<noteq> 0" "length d \<noteq> 1"
    by (cases d; cases "tl d") auto
  then show ?thesis
  proof cases
    case empty
    then show ?thesis
      by (simp add: domain_intersection_def domain_intersection_r.simps clip_list_def or_empty_def)
  next
    case one
    have o: "domain_intersection [i] [(a, b)] =
       (let mn = (if fst i > a then fst i else a); mx = (if snd i < b then snd i else b)
        in if mx \<ge> mn then [(mn, mx)] else [])"
      by (simp add: domain_intersection_def domain_intersection_r.simps or_empty_def Let_def)
    show ?thesis using assms unfolding one o clip_list_def Let_def by auto
  next
    case more
    then show ?thesis
      by (simp add: domain_intersection_def domain_intersection_r.simps[of d] clip_list_def
            or_empty_def Let_def)
  qed
qed

lemma clip_list_separated:
  assumes "separated 0 d" "a \<le> b"
  shows "separated 0 (clip_list a b d)"
proof -
  have ne: "\<forall>i \<in> set d. fst i \<le> snd i" and so: "sorted_wrt (\<lambda>i j. snd i < fst j) d"
    using assms(1) by (simp_all add: separated_iff)
  define f :: "interval \<Rightarrow> interval"
    where "f = (\<lambda>i. ((if a > fst i then a else fst i), (if b < snd i then b else snd i)))"
  define Q :: "interval \<Rightarrow> bool" where "Q = (\<lambda>i. fst i \<le> b \<and> snd i \<ge> a)"
  have c: "clip_list a b d = map f (filter Q d)" by (simp add: clip_list_def f_def Q_def)
  have f1: "fst i \<le> fst (f i)" "snd (f i) \<le> snd i" for i :: interval
    by (simp_all add: f_def)
  have f2: "fst (f i) \<le> snd (f i)" if "Q i" "fst i \<le> snd i" for i :: interval
    using that assms(2) by (auto simp: f_def Q_def)
  have "sorted_wrt (\<lambda>i j. snd (f i) < fst (f j)) d"
    using so
  proof (rule sorted_wrt_mono_rel[rotated])
    fix i j :: interval assume "snd i < fst j"
    then show "snd (f i) < fst (f j)" using f1(2)[of i] f1(1)[of j] by linarith
  qed
  then have "sorted_wrt (\<lambda>i j. snd (f i) < fst (f j)) (filter Q d)"
    by (rule sorted_wrt_filter)
  then have "sorted_wrt (\<lambda>i j. snd i < fst j) (map f (filter Q d))"
    by (simp add: sorted_wrt_map)
  moreover have "\<forall>i \<in> set (map f (filter Q d)). fst i \<le> snd i"
    using ne f2 by auto
  ultimately show ?thesis unfolding c separated_iff by simp
qed

lemma clip_list_le: "i \<in> set (clip_list a b d) \<Longrightarrow> a \<le> fst i \<and> snd i \<le> b"
  by (auto simp: clip_list_def)

lemma clip_list_hd:
  assumes "d \<noteq> []" "fst (hd d) \<le> snd (hd d)" "fst (hd d) \<le> b"
  shows "clip_list (fst (hd d)) b d \<noteq> [] \<and> fst (hd (clip_list (fst (hd d)) b d)) = fst (hd d)"
  using assms by (cases d) (auto simp: clip_list_def)

lemma filter_last: "d \<noteq> [] \<Longrightarrow> Q (last d) \<Longrightarrow> filter Q d \<noteq> [] \<and> last (filter Q d) = last d"
  by (induction d) (auto split: if_splits)

lemma clip_list_last:
  assumes "d \<noteq> []" "fst (last d) \<le> snd (last d)" "a \<le> snd (last d)"
  shows "clip_list a (snd (last d)) d \<noteq> []
         \<and> snd (last (clip_list a (snd (last d)) d)) = snd (last d)"
proof -
  define Q :: "interval \<Rightarrow> bool" where "Q = (\<lambda>i. fst i \<le> snd (last d) \<and> snd i \<ge> a)"
  have "Q (last d)" using assms by (simp add: Q_def)
  then have "filter Q d \<noteq> [] \<and> last (filter Q d) = last d"
    using assms(1) by (intro filter_last)
  then show ?thesis unfolding clip_list_def Q_def[symmetric] by (simp add: last_map)
qed

lemma clip_list_empty_lo:
  assumes "separated 0 d" "d \<noteq> []" "b < fst (hd d)"
  shows "clip_list a b d = []"
proof -
  have "\<forall>i \<in> set d. fst (hd d) \<le> fst i"
    using assms(1,2) separated_head_lt[of 0 "hd d" "tl d"] by (cases d) auto
  then show ?thesis using assms(3) by (auto simp: clip_list_def filter_empty_conv)
qed

lemma separated_last_ge:
  assumes "separated 0 d" "i \<in> set d"
  shows "snd i \<le> snd (last d)"
proof -
  have ne: "d \<noteq> []" using assms(2) by auto
  have l: "fst (last d) \<le> snd (last d)"
    using assms(1) ne by (simp add: separated_iff)
  have "sorted_wrt (\<lambda>i j. snd i < fst j) (butlast d @ [last d])"
    using assms(1) ne by (simp add: separated_iff)
  then have "\<forall>x \<in> set (butlast d). snd x < fst (last d)"
    by (simp add: sorted_wrt_append)
  moreover have "set d = set (butlast d) \<union> {last d}"
    using ne by (metis append_butlast_last_id list.simps(15) set_append empty_set)
  ultimately show ?thesis using l assms(2) by force
qed

lemma clip_list_empty_hi:
  assumes "separated 0 d" "snd (last d) < a"
  shows "clip_list a b d = []"
  using separated_last_ge[OF assms(1)] assms(2) by (fastforce simp: clip_list_def filter_empty_conv)

subsection \<open>Reading and writing variables and propagator fields\<close>

lemma set_last_step_sel [simp]:
  "last_step (set_last_step P n) = n"
  "allvars (set_last_step P n) = allvars P"
  "depvars (set_last_step P n) = depvars P"
  "step_fn (set_last_step P n) = step_fn P"
  "space_p (set_last_step P n) = space_p P"
  "solved (set_last_step P n) = solved P"
  "p_inner (set_last_step P n) = p_inner P"
  "np_inner (set_last_step P n) = np_inner P"
  by (simp_all add: set_last_step_def)

lemma set_last_step_twice [simp]: "set_last_step (set_last_step P a) b = set_last_step P b"
  by (simp add: set_last_step_def)

lemma set_last_step_same: "last_step P = n \<Longrightarrow> set_last_step P n = P"
  by (cases P) (simp add: set_last_step_def)

lemma set_solved_sel [simp]:
  "last_step (set_solved P b) = last_step P"
  "allvars (set_solved P b) = allvars P"
  "depvars (set_solved P b) = depvars P"
  "step_fn (set_solved P b) = step_fn P"
  "space_p (set_solved P b) = space_p P"
  "solved (set_solved P b) = b"
  "p_inner (set_solved P b) = p_inner P"
  "np_inner (set_solved P b) = np_inner P"
  by (simp_all add: set_solved_def)

lemma space_var_set_last_step [simp]: "space_var vs (set_last_step P n) k = space_var vs P k"
  by (simp add: space_var_def)

lemma space_var_Some: "space_var vs P k = Some x \<Longrightarrow> vs x \<noteq> None"
  by (auto simp: space_var_def split: if_splits option.splits)

lemma var_dom_set_dom:
  "vs n \<noteq> None \<Longrightarrow> var_dom (var_set_dom vs n d) m = (if m = n then d else var_dom vs m)"
  by (auto simp: var_dom_def var_set_dom_def dom_v_set_dom)

lemma var_step_set_dom:
  "vs n \<noteq> None \<Longrightarrow> var_step (var_set_dom vs n d) m =
     (if m = n then (if var_dom vs n = d then var_step vs n else var_step vs n + 1)
      else var_step vs m)"
  by (auto simp: var_step_def var_dom_def var_set_dom_def step_v_set_dom)

lemma var_set_dom_same: "var_dom vs n = d \<Longrightarrow> var_set_dom vs n d = vs"
  by (auto simp: var_dom_def var_set_dom_def set_dom_def domain_equal_iff
           simp del: domain_equal.simps split: option.splits)

lemma var_set_dom_None [simp]: "var_set_dom vs n d m = None \<longleftrightarrow> vs m = None"
  by (auto simp: var_set_dom_def split: option.splits)

lemma domain_bounds_Inr:
  "domain_bounds d = Inr b \<longleftrightarrow> d \<noteq> [] \<and> b = (fst (hd d), snd (last d))"
  by (auto simp: domain_bounds_def)

lemma set_dom_non_empty_eq:
  "set_dom_non_empty vs n d = (if d = [] then Inl Fail else Inr (var_set_dom vs n d))"
  by (simp add: set_dom_non_empty_def domain_non_empty_def)

lemma lt_loop_quiet:
  assumes "domain_bounds (var_dom vs x) = Inr b1" "domain_bounds (var_dom vs y) = Inr b2"
    and "\<not> snd b2 - 1 < snd b1" "\<not> fst b1 + 1 > fst b2"
  shows "lt_loop (Suc f) x y (P, vs)
           = Normal () (set_last_step P (var_step vs x + var_step vs y), vs)"
  using assms by (simp add: Let_def)

lemma lt_loop_round:
  assumes "domain_bounds (var_dom vs x) = Inr b1" "domain_bounds (var_dom vs y) = Inr b2"
    and "(if snd b2 - 1 < snd b1
          then set_dom_non_empty vs x (domain_intersection (var_dom vs x) [(fst b1, snd b2 - 1)])
          else Inr vs) = Inr vs1"
    and "(if fst b1 + 1 > fst b2
          then set_dom_non_empty vs1 y (domain_intersection (var_dom vs1 y) [(fst b1 + 1, snd b2)])
          else Inr vs1) = Inr vs2"
  shows "lt_loop (Suc f) x y (P, vs)
           = (if var_step vs2 x + var_step vs2 y > var_step vs x + var_step vs y
              then lt_loop f x y (set_last_step P (var_step vs x + var_step vs y), vs2)
              else Normal () (set_last_step P (var_step vs x + var_step vs y), vs2))"
  by (simp only: lt_loop.simps Let_def assms sum.case set_last_step_sel)

lemma lt_loop_fail1:
  assumes "domain_bounds (var_dom vs x) = Inr b1" "domain_bounds (var_dom vs y) = Inr b2"
    and "(if snd b2 - 1 < snd b1
          then set_dom_non_empty vs x (domain_intersection (var_dom vs x) [(fst b1, snd b2 - 1)])
          else Inr vs) = Inl e"
  shows "lt_loop (Suc f) x y (P, vs)
           = Raised e (set_last_step P (var_step vs x + var_step vs y), vs)"
  by (simp only: lt_loop.simps Let_def assms sum.case set_last_step_sel)

lemma lt_loop_fail2:
  assumes "domain_bounds (var_dom vs x) = Inr b1" "domain_bounds (var_dom vs y) = Inr b2"
    and "(if snd b2 - 1 < snd b1
          then set_dom_non_empty vs x (domain_intersection (var_dom vs x) [(fst b1, snd b2 - 1)])
          else Inr vs) = Inr vs1"
    and "(if fst b1 + 1 > fst b2
          then set_dom_non_empty vs1 y (domain_intersection (var_dom vs1 y) [(fst b1 + 1, snd b2)])
          else Inr vs1) = Inl e"
  shows "lt_loop (Suc f) x y (P, vs)
           = Raised e (set_last_step P (var_step vs x + var_step vs y), vs1)"
  by (simp only: lt_loop.simps Let_def assms sum.case set_last_step_sel)

lemma separated_bounds_le:
  assumes "separated 0 d" "d \<noteq> []"
  shows "fst (hd d) \<le> snd (last d)" "\<forall>i \<in> set d. fst (hd d) \<le> fst i"
    "\<forall>i \<in> set d. snd i \<le> snd (last d)"
proof -
  show a: "\<forall>i \<in> set d. fst (hd d) \<le> fst i"
    using assms separated_head_lt[of 0 "hd d" "tl d"] by (cases d) auto
  show b: "\<forall>i \<in> set d. snd i \<le> snd (last d)"
    using separated_last_ge[OF assms(1)] by blast
  have "fst (hd d) \<le> snd (hd d)" using assms by (cases d) (auto simp: separated_iff)
  then show "fst (hd d) \<le> snd (last d)" using b assms(2) hd_in_set by fastforce
qed

lemma lt_new_x_facts:
  assumes "separated 0 X" "X \<noteq> []" "separated 0 Y" "Y \<noteq> []"
  shows "lt_new_x X Y = [] \<longleftrightarrow> snd (last Y) \<le> fst (hd X)"
    and "lt_new_x X Y \<noteq> [] \<Longrightarrow> fst (hd (lt_new_x X Y)) = fst (hd X)
           \<and> snd (last (lt_new_x X Y)) \<le> snd (last Y) - 1
           \<and> separated 0 (lt_new_x X Y)"
proof -
  note bx = separated_bounds_le[OF assms(1,2)]
  define b where "b = snd (last Y) - 1"
  have single: "domain_intersection X [(fst (hd X), b)] = clip_list (fst (hd X)) b X"
    using assms(1) bx(2) by (intro domain_intersection_single) (auto simp: separated_iff)
  show "lt_new_x X Y = [] \<longleftrightarrow> snd (last Y) \<le> fst (hd X)"
  proof (cases "b < fst (hd X)")
    case True
    then have "clip_list (fst (hd X)) b X = []"
      using assms(1,2) by (intro clip_list_empty_lo)
    then show ?thesis using True bx(1) single unfolding lt_new_x_def b_def[symmetric]
      by (auto simp: b_def)
  next
    case False
    then have "clip_list (fst (hd X)) b X \<noteq> []"
      using clip_list_hd[of X b] assms(1,2) by (cases X) (auto simp: separated_iff)
    then show ?thesis using False assms(2) single unfolding lt_new_x_def b_def[symmetric]
      by (auto simp: b_def)
  qed
  assume ne: "lt_new_x X Y \<noteq> []"
  show "fst (hd (lt_new_x X Y)) = fst (hd X)
           \<and> snd (last (lt_new_x X Y)) \<le> snd (last Y) - 1
           \<and> separated 0 (lt_new_x X Y)"
  proof (cases "b < snd (last X)")
    case False
    then show ?thesis using assms(1) by (simp add: lt_new_x_def b_def)
  next
    case True
    then have e: "lt_new_x X Y = clip_list (fst (hd X)) b X"
      using single by (simp add: lt_new_x_def b_def)
    have le: "fst (hd X) \<le> b"
      using ne e clip_list_empty_lo[OF assms(1,2), of b "fst (hd X)"] by fastforce
    have h: "fst (hd (clip_list (fst (hd X)) b X)) = fst (hd X)"
      using clip_list_hd[of X b] assms(1,2) le by (cases X) (auto simp: separated_iff)
    have "last (clip_list (fst (hd X)) b X) \<in> set (clip_list (fst (hd X)) b X)"
      using ne e by simp
    then have l: "snd (last (clip_list (fst (hd X)) b X)) \<le> b"
      using clip_list_le by blast
    have "separated 0 (clip_list (fst (hd X)) b X)"
      using assms(1) le by (rule clip_list_separated)
    then show ?thesis using h l unfolding e b_def by simp
  qed
qed

lemma lt_new_y_facts:
  assumes "separated 0 X" "X \<noteq> []" "separated 0 Y" "Y \<noteq> []"
  shows "lt_new_y X Y = [] \<longleftrightarrow> snd (last Y) \<le> fst (hd X)"
    and "lt_new_y X Y \<noteq> [] \<Longrightarrow> snd (last (lt_new_y X Y)) = snd (last Y)
           \<and> fst (hd X) + 1 \<le> fst (hd (lt_new_y X Y))
           \<and> separated 0 (lt_new_y X Y)"
proof -
  note bnd = separated_bounds_le[OF assms(3,4)]
  define a where "a = fst (hd X) + 1"
  have single: "domain_intersection Y [(a, snd (last Y))] = clip_list a (snd (last Y)) Y"
    using assms(3) bnd(3) by (intro domain_intersection_single) (auto simp: separated_iff)
  have lastne: "fst (last Y) \<le> snd (last Y)"
    using assms(3,4) by (simp add: separated_iff)
  show "lt_new_y X Y = [] \<longleftrightarrow> snd (last Y) \<le> fst (hd X)"
  proof (cases "snd (last Y) < a")
    case True
    then have "clip_list a (snd (last Y)) Y = []"
      using assms(3) by (intro clip_list_empty_hi)
    moreover have "fst (hd Y) < a" using True bnd(1) by simp
    ultimately show ?thesis using True single unfolding lt_new_y_def a_def[symmetric]
      by (auto simp: a_def)
  next
    case False
    then have "clip_list a (snd (last Y)) Y \<noteq> []"
      using clip_list_last[OF assms(4) lastne, of a] by simp
    then show ?thesis using False assms(4) single unfolding lt_new_y_def a_def[symmetric]
      by (auto simp: a_def)
  qed
  assume ne: "lt_new_y X Y \<noteq> []"
  show "snd (last (lt_new_y X Y)) = snd (last Y)
           \<and> fst (hd X) + 1 \<le> fst (hd (lt_new_y X Y))
           \<and> separated 0 (lt_new_y X Y)"
  proof (cases "a > fst (hd Y)")
    case False
    then show ?thesis using assms(3) by (simp add: lt_new_y_def a_def)
  next
    case True
    then have e: "lt_new_y X Y = clip_list a (snd (last Y)) Y"
      using single by (simp add: lt_new_y_def a_def)
    have le: "a \<le> snd (last Y)"
      using ne e clip_list_empty_hi[OF assms(3), of a "snd (last Y)"] by fastforce
    have l: "snd (last (clip_list a (snd (last Y)) Y)) = snd (last Y)"
      using clip_list_last[OF assms(4) lastne le] by simp
    have "hd (clip_list a (snd (last Y)) Y) \<in> set (clip_list a (snd (last Y)) Y)"
      using ne e by simp
    then have h: "a \<le> fst (hd (clip_list a (snd (last Y)) Y))"
      using clip_list_le by blast
    have "separated 0 (clip_list a (snd (last Y)) Y)"
      using assms(3) le by (rule clip_list_separated)
    then show ?thesis using h l unfolding e a_def by simp
  qed
qed

subsection \<open>The three ways through the step function\<close>

lemma lt_step_closed:
  assumes "space_var vs P 1 = Some x" "space_var vs P 2 = Some y"
    and "\<not> var_step vs x + var_step vs y > last_step P"
  shows "lt_step fuel P vs = Normal 0 (P, vs)"
  by (simp only: lt_step_def assms option.case prod.case Let_def if_False)

lemma lt_step_solved:
  assumes "space_var vs P 1 = Some x" "space_var vs P 2 = Some y"
    and "var_step vs x + var_step vs y > last_step P"
    and "var_dom vs x \<noteq> []" "var_dom vs y \<noteq> []"
    and "fst (hd (var_dom vs y)) > snd (last (var_dom vs x))"
  shows "lt_step fuel P vs
           = Normal 0 (set_solved (set_last_step P (var_step vs x + var_step vs y)) True, vs)"
proof -
  have b: "domain_bounds (var_dom vs x) = Inr (fst (hd (var_dom vs x)), snd (last (var_dom vs x)))"
    "domain_bounds (var_dom vs y) = Inr (fst (hd (var_dom vs y)), snd (last (var_dom vs y)))"
    using assms(4,5) by (simp_all add: domain_bounds_Inr)
  show ?thesis
    by (simp only: lt_step_def assms(1,2,3,6) b option.case prod.case Let_def if_True sum.case
          fst_conv snd_conv)
qed

lemma lt_step_open:
  assumes "space_var vs P 1 = Some x" "space_var vs P 2 = Some y"
    and "var_step vs x + var_step vs y > last_step P"
    and "var_dom vs x \<noteq> []" "var_dom vs y \<noteq> []"
    and "\<not> fst (hd (var_dom vs y)) > snd (last (var_dom vs x))"
  shows "lt_step fuel P vs =
           (case lt_loop fuel x y (set_last_step P (var_step vs x + var_step vs y), vs) of
              Normal _ (P', vs') \<Rightarrow>
                Normal (var_step vs' x + var_step vs' y - (var_step vs x + var_step vs y))
                  (set_last_step P' (var_step vs' x + var_step vs' y), vs')
            | Raised e s \<Rightarrow> Raised e s
            | Timeout \<Rightarrow> Timeout)"
proof -
  have b: "domain_bounds (var_dom vs x) = Inr (fst (hd (var_dom vs x)), snd (last (var_dom vs x)))"
    "domain_bounds (var_dom vs y) = Inr (fst (hd (var_dom vs y)), snd (last (var_dom vs y)))"
    using assms(4,5) by (simp_all add: domain_bounds_Inr)
  show ?thesis
    by (simp only: lt_step_def assms(1,2,3,6) b option.case prod.case Let_def if_True if_False
          sum.case fst_conv snd_conv set_last_step_sel)
qed

lemma lt_loop_two_rounds:
  assumes xy: "x \<noteq> y" and vx: "vs x \<noteq> None" and vy: "vs y \<noteq> None"
    and sx: "separated 0 (var_dom vs x)" and sy: "separated 0 (var_dom vs y)"
    and nx: "var_dom vs x \<noteq> []" and ny: "var_dom vs y \<noteq> []"
    and X': "X' = lt_new_x (var_dom vs x) (var_dom vs y)"
    and Y': "Y' = lt_new_y (var_dom vs x) (var_dom vs y)"
    and vs': "vs' = var_set_dom (var_set_dom vs x X') y Y'"
  shows "X' \<noteq> [] \<Longrightarrow> Y' \<noteq> [] \<Longrightarrow>
           \<exists>P'. lt_loop (Suc (Suc fuel)) x y (P, vs) = Normal () (P', vs')
                \<and> set_last_step P' (var_step vs' x + var_step vs' y)
                    = set_last_step P (var_step vs' x + var_step vs' y)"
    and "X' = [] \<or> Y' = [] \<Longrightarrow> \<exists>s. lt_loop (Suc (Suc fuel)) x y (P, vs) = Raised Fail s"
proof -
  define X where "X = var_dom vs x"
  define Y where "Y = var_dom vs y"
  define b1 where "b1 = (fst (hd X), snd (last X))"
  define b2 where "b2 = (fst (hd Y), snd (last Y))"
  define vs1 where "vs1 = var_set_dom vs x X'"
  have bx: "domain_bounds (var_dom vs x) = Inr b1" and bnd_y: "domain_bounds (var_dom vs y) = Inr b2"
    using nx ny by (simp_all add: domain_bounds_Inr b1_def b2_def X_def Y_def)
  have y1: "var_dom vs1 y = Y" "vs1 y \<noteq> None" "vs1 x \<noteq> None"
    using xy vx vy by (simp_all add: vs1_def var_dom_set_dom Y_def)
  have X'_eq: "X' = (if snd b2 - 1 < snd b1
                     then domain_intersection X [(fst b1, snd b2 - 1)] else X)"
    by (simp add: X' lt_new_x_def b1_def b2_def X_def Y_def)
  have Y'_eq: "Y' = (if fst b1 + 1 > fst b2
                     then domain_intersection Y [(fst b1 + 1, snd b2)] else Y)"
    by (simp add: Y' lt_new_y_def b1_def b2_def X_def Y_def)
  have r1: "(if snd b2 - 1 < snd b1
          then set_dom_non_empty vs x (domain_intersection (var_dom vs x) [(fst b1, snd b2 - 1)])
          else Inr vs) = (if X' = [] then Inl Fail else Inr vs1)"
    using nx unfolding X'_eq vs1_def X_def[symmetric]
    by (auto simp: set_dom_non_empty_eq X'_eq var_set_dom_same X_def)
  have r2: "(if fst b1 + 1 > fst b2
          then set_dom_non_empty vs1 y (domain_intersection (var_dom vs1 y) [(fst b1 + 1, snd b2)])
          else Inr vs1) = (if Y' = [] then Inl Fail else Inr vs')"
    using ny unfolding Y'_eq y1(1) vs' vs1_def[symmetric]
    by (auto simp: set_dom_non_empty_eq var_set_dom_same y1(1) Y_def)
  {
    assume "X' = [] \<or> Y' = []"
    then show "\<exists>s. lt_loop (Suc (Suc fuel)) x y (P, vs) = Raised Fail s"
    proof (cases "X' = []")
      case True
      then show ?thesis using lt_loop_fail1[OF bx bnd_y, of Fail "Suc fuel" P] r1 by simp
    next
      case False
      assume "X' = [] \<or> Y' = []"
      then have "Y' = []" using False by simp
      then show ?thesis
        using lt_loop_fail2[OF bx bnd_y, of vs1 Fail "Suc fuel" P] r1 r2 False by simp
    qed
  }
  assume nX: "X' \<noteq> []" and nY: "Y' \<noteq> []"
  note fx = lt_new_x_facts(2)[OF sx nx sy ny, folded X', OF nX]
  note fy = lt_new_y_facts(2)[OF sx nx sy ny, folded Y', OF nY]
  have round1: "lt_loop (Suc (Suc fuel)) x y (P, vs)
           = (if var_step vs' x + var_step vs' y > var_step vs x + var_step vs y
              then lt_loop (Suc fuel) x y (set_last_step P (var_step vs x + var_step vs y), vs')
              else Normal () (set_last_step P (var_step vs x + var_step vs y), vs'))"
    using lt_loop_round[OF bx bnd_y, of vs1 vs' "Suc fuel" P] r1 r2 nX nY by simp
  have d': "var_dom vs' x = X'" "var_dom vs' y = Y'"
    using xy vx vy by (simp_all add: vs' var_dom_set_dom)
  have bx': "domain_bounds (var_dom vs' x) = Inr (fst (hd X'), snd (last X'))"
    and bnd_y': "domain_bounds (var_dom vs' y) = Inr (fst (hd Y'), snd (last Y'))"
    using nX nY by (simp_all add: domain_bounds_Inr d')
  have q: "\<not> snd (fst (hd Y'), snd (last Y')) - 1 < snd (fst (hd X'), snd (last X'))"
    "\<not> fst (fst (hd X'), snd (last X')) + 1 > fst (fst (hd Y'), snd (last Y'))"
    using fx fy by simp_all
  have round2: "lt_loop (Suc fuel) x y (Q, vs')
                  = Normal () (set_last_step Q (var_step vs' x + var_step vs' y), vs')" for Q
    by (rule lt_loop_quiet[OF bx' bnd_y' q])
  show "\<exists>P'. lt_loop (Suc (Suc fuel)) x y (P, vs) = Normal () (P', vs')
                \<and> set_last_step P' (var_step vs' x + var_step vs' y)
                    = set_last_step P (var_step vs' x + var_step vs' y)"
    unfolding round1 round2 by simp
qed

text \<open>
  C7 describes every step of \<open>lt\<close>. The step function starts with the gate
  \<^verbatim>\<open>nextStep > this.last_step\<close>; behind a closed gate it returns 0 and does
  nothing else. After \<open>lt\<close> has narrowed \<open>x\<close> from \<open>[(0, 5)]\<close> to \<open>[(0, 2)]\<close> against
  \<open>y = [(3, 3)]\<close> (the state the witness below arrives at), the lower bound of
  \<open>y\<close> is above the upper bound of \<open>x\<close>, and the next step returns 0 without
  marking the propagator solved.
\<close>

theorem lt_step_gate_closed_counterexample:
  "lt_step 2
     (Propagator [Sym ''X'', Sym ''Y''] [Sym ''X'', Sym ''Y''] Lt_step 1
        [Some (Sym ''X''), Some (Sym ''Y'')] False None None)
     [Sym ''X'' \<mapsto> \<lparr>dom_v = [(0, 2)], step_v = 1\<rparr>, Sym ''Y'' \<mapsto> \<lparr>dom_v = [(3, 3)], step_v = 0\<rparr>]
   = Normal 0
      (Propagator [Sym ''X'', Sym ''Y''] [Sym ''X'', Sym ''Y''] Lt_step 1
         [Some (Sym ''X''), Some (Sym ''Y'')] False None None,
       [Sym ''X'' \<mapsto> \<lparr>dom_v = [(0, 2)], step_v = 1\<rparr>, Sym ''Y'' \<mapsto> \<lparr>dom_v = [(3, 3)], step_v = 0\<rparr>])
   \<and> domain_bounds [(0, 2)] = Inr (0, 2) \<and> domain_bounds [(3, 3)] = Inr (3, 3)
   \<and> \<not> solved (Propagator [Sym ''X'', Sym ''Y''] [Sym ''X'', Sym ''Y''] Lt_step 1
         [Some (Sym ''X''), Some (Sym ''Y'')] False None None)"
proof -
  define P where "P = Propagator [Sym ''X'', Sym ''Y''] [Sym ''X'', Sym ''Y''] Lt_step 1
        [Some (Sym ''X''), Some (Sym ''Y'')] False None None"
  define vs :: "name \<rightharpoonup> fdvar" where
    "vs = [Sym ''X'' \<mapsto> \<lparr>dom_v = [(0, 2)], step_v = 1\<rparr>, Sym ''Y'' \<mapsto> \<lparr>dom_v = [(3, 3)], step_v = 0\<rparr>]"
  have x: "space_var vs P 1 = Some (Sym ''X'')" and y: "space_var vs P 2 = Some (Sym ''Y'')"
    by (simp_all add: space_var_def P_def vs_def)
  have g: "\<not> var_step vs (Sym ''X'') + var_step vs (Sym ''Y'') > last_step P"
    by (simp add: var_step_def P_def vs_def)
  have "lt_step 2 P vs = Normal 0 (P, vs)" by (rule lt_step_closed[OF x y g])
  moreover have "\<not> solved P" by (simp add: P_def)
  ultimately show ?thesis unfolding P_def vs_def by (simp add: domain_bounds_def)
qed

text \<open>
  C7, amended to the steps that pass the gate. For \<open>lt(x, y)\<close> on two different
  variables with non-empty canonical domains: a step behind a closed gate
  returns 0 and changes nothing. A step through the gate with \<open>y_lo > x_hi\<close>
  marks the propagator solved and returns 0 without changing a domain.
  Otherwise the step throws \<open>Fail\<close> exactly when one of the two intersections is
  empty, which is when \<open>y_hi \<le> x_lo\<close>; if not, it returns after at most two
  rounds with \<open>x\<close> constrained to \<open>[x_lo, y_hi - 1]\<close> (when \<open>y_hi - 1 < x_hi\<close>) and
  \<open>y\<close> to \<open>[x_lo + 1, y_hi]\<close> (when \<open>x_lo + 1 > y_lo\<close>), the number of changed
  domains as its value and \<open>last_step\<close> at the new sum of the revisions.
\<close>

theorem lt_step_gate:
  fixes vs :: "name \<rightharpoonup> fdvar"
  assumes "space_var vs P 1 = Some x" "space_var vs P 2 = Some y" "x \<noteq> y"
    and "separated 0 (var_dom vs x)" "separated 0 (var_dom vs y)"
    and "var_dom vs x \<noteq> []" "var_dom vs y \<noteq> []"
  defines "X \<equiv> var_dom vs x" and "Y \<equiv> var_dom vs y"
  defines "nextStep \<equiv> var_step vs x + var_step vs y"
  defines "X' \<equiv> lt_new_x X Y" and "Y' \<equiv> lt_new_y X Y"
  defines "vs' \<equiv> var_set_dom (var_set_dom vs x X') y Y'"
  shows "(\<not> nextStep > last_step P \<longrightarrow> lt_step fuel P vs = Normal 0 (P, vs))
   \<and> (nextStep > last_step P \<and> fst (hd Y) > snd (last X) \<longrightarrow>
        lt_step fuel P vs = Normal 0 (set_solved (set_last_step P nextStep) True, vs))
   \<and> (nextStep > last_step P \<and> \<not> fst (hd Y) > snd (last X) \<longrightarrow>
        ((X' = [] \<or> Y' = []) \<longleftrightarrow> snd (last Y) \<le> fst (hd X))
        \<and> (if X' = [] \<or> Y' = []
           then \<exists>s. lt_step (Suc (Suc fuel)) P vs = Raised Fail s
           else lt_step (Suc (Suc fuel)) P vs
                  = Normal (var_step vs' x + var_step vs' y - nextStep)
                      (set_last_step P (var_step vs' x + var_step vs' y), vs')))"
proof (intro conjI impI)
  assume "\<not> nextStep > last_step P"
  then show "lt_step fuel P vs = Normal 0 (P, vs)"
    unfolding nextStep_def by (rule lt_step_closed[OF assms(1,2)])
next
  assume "nextStep > last_step P \<and> fst (hd Y) > snd (last X)"
  then show "lt_step fuel P vs = Normal 0 (set_solved (set_last_step P nextStep) True, vs)"
    unfolding nextStep_def X_def Y_def using lt_step_solved[OF assms(1,2) _ assms(6,7)] by blast
next
  assume "nextStep > last_step P \<and> \<not> fst (hd Y) > snd (last X)"
  show "(X' = [] \<or> Y' = []) \<longleftrightarrow> snd (last Y) \<le> fst (hd X)"
    unfolding X'_def Y'_def X_def Y_def
    using lt_new_x_facts(1)[OF assms(4,6,5,7)] lt_new_y_facts(1)[OF assms(4,6,5,7)] by blast
next
  assume g: "nextStep > last_step P \<and> \<not> fst (hd Y) > snd (last X)"
  have vx: "vs x \<noteq> None" and vy: "vs y \<noteq> None"
    using assms(1,2) space_var_Some by blast+
  have st: "lt_step (Suc (Suc fuel)) P vs =
           (case lt_loop (Suc (Suc fuel)) x y (set_last_step P nextStep, vs) of
              Normal _ (P', vs') \<Rightarrow>
                Normal (var_step vs' x + var_step vs' y - nextStep)
                  (set_last_step P' (var_step vs' x + var_step vs' y), vs')
            | Raised e s \<Rightarrow> Raised e s
            | Timeout \<Rightarrow> Timeout)"
    unfolding nextStep_def
    using g lt_step_open[OF assms(1,2) _ assms(6,7)] unfolding nextStep_def X_def Y_def by blast
  note two = lt_loop_two_rounds[OF assms(3) vx vy assms(4,5,6,7) refl refl refl,
      of fuel "set_last_step P nextStep", folded X_def Y_def, folded X'_def Y'_def, folded vs'_def]
  show "if X' = [] \<or> Y' = []
        then \<exists>s. lt_step (Suc (Suc fuel)) P vs = Raised Fail s
        else lt_step (Suc (Suc fuel)) P vs
               = Normal (var_step vs' x + var_step vs' y - nextStep)
                   (set_last_step P (var_step vs' x + var_step vs' y), vs')"
  proof (cases "X' = [] \<or> Y' = []")
    case True
    then obtain s where "lt_loop (Suc (Suc fuel)) x y (set_last_step P nextStep, vs) = Raised Fail s"
      using two(2) by blast
    then show ?thesis using True unfolding st by simp
  next
    case False
    then obtain P' where
      "lt_loop (Suc (Suc fuel)) x y (set_last_step P nextStep, vs) = Normal () (P', vs')"
      "set_last_step P' (var_step vs' x + var_step vs' y)
         = set_last_step (set_last_step P nextStep) (var_step vs' x + var_step vs' y)"
      using two(1) by blast
    then show ?thesis using False unfolding st by simp
  qed
qed

theorem lt_step_gate_witness:
  "lt_step 2
     (initprop_in
        [Sym ''X'' \<mapsto> \<lparr>dom_v = [(0, 5)], step_v = 0\<rparr>, Sym ''Y'' \<mapsto> \<lparr>dom_v = [(3, 3)], step_v = 0\<rparr>]
        ([Sym ''X'', Sym ''Y''], [Sym ''X'', Sym ''Y''], Lt_step))
     [Sym ''X'' \<mapsto> \<lparr>dom_v = [(0, 5)], step_v = 0\<rparr>, Sym ''Y'' \<mapsto> \<lparr>dom_v = [(3, 3)], step_v = 0\<rparr>]
   = Normal 1
      (Propagator [Sym ''X'', Sym ''Y''] [Sym ''X'', Sym ''Y''] Lt_step 1
         [Some (Sym ''X''), Some (Sym ''Y'')] False None None,
       [Sym ''X'' \<mapsto> \<lparr>dom_v = [(0, 2)], step_v = 1\<rparr>, Sym ''Y'' \<mapsto> \<lparr>dom_v = [(3, 3)], step_v = 0\<rparr>])"
proof -
  define vs :: "name \<rightharpoonup> fdvar" where
    "vs = [Sym ''X'' \<mapsto> \<lparr>dom_v = [(0, 5)], step_v = 0\<rparr>, Sym ''Y'' \<mapsto> \<lparr>dom_v = [(3, 3)], step_v = 0\<rparr>]"
  define P where "P = initprop_in vs ([Sym ''X'', Sym ''Y''], [Sym ''X'', Sym ''Y''], Lt_step)"
  have P: "P = Propagator [Sym ''X'', Sym ''Y''] [Sym ''X'', Sym ''Y''] Lt_step (- 1)
         [Some (Sym ''X''), Some (Sym ''Y'')] False None None"
    by (simp add: P_def initprop_in_def bind_vars_def vs_def)
  have x: "space_var vs P 1 = Some (Sym ''X'')" and y: "space_var vs P 2 = Some (Sym ''Y'')"
    by (simp_all add: space_var_def P vs_def)
  have dx: "var_dom vs (Sym ''X'') = [(0, 5)]" and dy: "var_dom vs (Sym ''Y'') = [(3, 3)]"
    and sx: "var_step vs (Sym ''X'') = 0" and sy: "var_step vs (Sym ''Y'') = 0"
    by (simp_all add: var_dom_def var_step_def vs_def)
  have X': "lt_new_x [(0, 5)] [(3, 3)] = [(0, 2)]" and Y': "lt_new_y [(0, 5)] [(3, 3)] = [(3, 3)]"
    by (simp_all add: lt_new_x_def lt_new_y_def domain_intersection_def
          domain_intersection_r.simps or_empty_def Let_def)
  have vs': "var_set_dom (var_set_dom vs (Sym ''X'') [(0, 2)]) (Sym ''Y'') [(3, 3)]
       = [Sym ''X'' \<mapsto> \<lparr>dom_v = [(0, 2)], step_v = 1\<rparr>, Sym ''Y'' \<mapsto> \<lparr>dom_v = [(3, 3)], step_v = 0\<rparr>]"
    by (rule ext) (simp add: var_set_dom_def vs_def set_dom_def)
  have h: "Sym ''X'' \<noteq> Sym ''Y''" "separated 0 (var_dom vs (Sym ''X''))"
    "separated 0 (var_dom vs (Sym ''Y''))" "var_dom vs (Sym ''X'') \<noteq> []"
    "var_dom vs (Sym ''Y'') \<noteq> []"
    by (simp_all add: dx dy)
  have g: "var_step vs (Sym ''X'') + var_step vs (Sym ''Y'') > last_step P
           \<and> \<not> fst (hd (var_dom vs (Sym ''Y''))) > snd (last (var_dom vs (Sym ''X'')))"
    by (simp add: sx sy dx dy P)
  have "lt_step (Suc (Suc 0)) P vs
          = Normal 1 (set_last_step P 1,
              [Sym ''X'' \<mapsto> \<lparr>dom_v = [(0, 2)], step_v = 1\<rparr>, Sym ''Y'' \<mapsto> \<lparr>dom_v = [(3, 3)], step_v = 0\<rparr>])"
  proof -
    have s': "var_step [Sym ''X'' \<mapsto> \<lparr>dom_v = [(0, 2)], step_v = 1\<rparr>,
                        Sym ''Y'' \<mapsto> \<lparr>dom_v = [(3, 3)], step_v = 0\<rparr>] (Sym ''X'') = 1"
      "var_step [Sym ''X'' \<mapsto> \<lparr>dom_v = [(0, 2)], step_v = 1\<rparr>,
                 Sym ''Y'' \<mapsto> \<lparr>dom_v = [(3, 3)], step_v = 0\<rparr>] (Sym ''Y'') = 0"
      by (simp_all add: var_step_def)
    show ?thesis
      using lt_step_gate[OF x y h, of 0] g
      by (simp add: dx dy sx sy X' Y' vs' s')
  qed
  then show ?thesis unfolding P_def[symmetric] vs_def[symmetric]
    by (simp add: P set_last_step_def numeral_2_eq_2 vs_def)
qed

section \<open>The fixpoint of propagate\<close>

subsection \<open>Keeping a propagator, evolving the variables\<close>

lemma is_comparison_iff:
  "is_comparison f \<longleftrightarrow> f = Eq_step \<or> f = Lt_step \<or> f = Lte_step \<or> f = Neq_step"
  by (cases f) (simp_all add: is_comparison_def)

lemma names_of_eq: "names_of bs = {n. Some n \<in> set bs}"
  by (induction bs) (auto simp: names_of_def map_filter_def)

lemma keeps_refl [simp]: "keeps P P"
  by (simp add: keeps_def)

lemma keeps_trans: "keeps P Q \<Longrightarrow> keeps Q R \<Longrightarrow> keeps P R"
  by (simp add: keeps_def)

lemma wf_propagator_cong:
  assumes "step_fn P' = step_fn P" "space_p P' = space_p P" "allvars P' = allvars P"
    "p_inner P' = p_inner P" "np_inner P' = np_inner P"
  shows "wf_propagator P' = wf_propagator P"
  unfolding wf_propagator_def bound_ok_def assms by (rule refl)

lemma keeps_set_last_step [simp]: "keeps P (set_last_step P n)"
  by (simp add: keeps_def wf_propagator_cong[of "set_last_step P n" P])

lemma keeps_set_solved [simp]: "keeps P (set_solved P b)"
  by (simp add: keeps_def wf_propagator_cong[of "set_solved P b" P])

lemma evolves_refl [simp]: "evolves A vs vs"
  by (simp add: evolves_def split: option.splits)

lemma evolves_trans:
  assumes "evolves A vs vs1" "evolves A vs1 vs2"
  shows "evolves A vs vs2"
  unfolding evolves_def
proof (intro allI conjI)
  fix n
  show "n \<notin> A \<longrightarrow> vs2 n = vs n" using assms by (simp add: evolves_def)
  have a: "case vs n of None \<Rightarrow> vs1 n = None
           | Some v \<Rightarrow> (case vs1 n of None \<Rightarrow> False
               | Some v' \<Rightarrow> step_v v \<le> step_v v' \<and> (step_v v' = step_v v \<longrightarrow> v' = v))"
    using assms(1) by (simp add: evolves_def)
  have b: "case vs1 n of None \<Rightarrow> vs2 n = None
           | Some v \<Rightarrow> (case vs2 n of None \<Rightarrow> False
               | Some v' \<Rightarrow> step_v v \<le> step_v v' \<and> (step_v v' = step_v v \<longrightarrow> v' = v))"
    using assms(2) by (simp add: evolves_def)
  show "case vs n of None \<Rightarrow> vs2 n = None
        | Some v \<Rightarrow> (case vs2 n of None \<Rightarrow> False
            | Some v' \<Rightarrow> step_v v \<le> step_v v' \<and> (step_v v' = step_v v \<longrightarrow> v' = v))"
    using a b by (cases "vs n"; cases "vs1 n"; cases "vs2 n") auto
qed

lemma evolves_mono: "evolves A vs vs' \<Longrightarrow> A \<subseteq> B \<Longrightarrow> evolves B vs vs'"
  by (auto simp: evolves_def)

lemma evolves_var_set_dom: "n \<in> A \<Longrightarrow> evolves A vs (var_set_dom vs n d)"
  by (auto simp: evolves_def var_set_dom_def set_dom_def split: option.splits)

lemma evolves_step_le: "evolves A vs vs' \<Longrightarrow> var_step vs n \<le> var_step vs' n"
  unfolding evolves_def var_step_def
  by (erule allE[of _ n]) (auto split: option.splits)

lemma evolves_step_eq:
  assumes "evolves A vs vs'" "var_step vs' n = var_step vs n"
  shows "vs' n = vs n"
  using assms(1)[unfolded evolves_def, THEN spec, of n] assms(2)
  by (auto simp: var_step_def split: option.splits)

lemma evolves_None: "evolves A vs vs' \<Longrightarrow> vs' n = None \<longleftrightarrow> vs n = None"
  unfolding evolves_def
  by (erule allE[of _ n]) (auto split: option.splits)

lemma revisions_le: "evolves A vs vs' \<Longrightarrow> revisions vs ns \<le> revisions vs' ns"
  unfolding revisions_def
  by (induction ns) (auto intro: add_mono evolves_step_le)

lemma revisions_eq:
  assumes "evolves A vs vs'" "revisions vs' ns = revisions vs ns" "n \<in> set ns"
  shows "var_step vs' n = var_step vs n"
  using assms(2,3)
proof (induction ns)
  case Nil
  then show ?case by simp
next
  case (Cons m ns)
  have 1: "var_step vs m \<le> var_step vs' m" by (rule evolves_step_le[OF assms(1)])
  have 2: "revisions vs ns \<le> revisions vs' ns" by (rule revisions_le[OF assms(1)])
  have 3: "var_step vs' m + revisions vs' ns = var_step vs m + revisions vs ns"
    using Cons.prems(1) by (simp add: revisions_def)
  have "var_step vs' m = var_step vs m" "revisions vs' ns = revisions vs ns"
    using 1 2 3 by linarith+
  then show ?case using Cons by auto
qed

lemma evolves_quiet:
  assumes "evolves (set ns) vs vs'" "revisions vs' ns = revisions vs ns"
  shows "vs' = vs"
proof
  fix n
  show "vs' n = vs n"
  proof (cases "n \<in> set ns")
    case True
    then show ?thesis using revisions_eq[OF assms] evolves_step_eq[OF assms(1)] by blast
  next
    case False
    then show ?thesis using assms(1) by (simp add: evolves_def)
  qed
qed

lemma evolves_sdne:
  "set_dom_non_empty vs n d = Inr vs' \<Longrightarrow> n \<in> A \<Longrightarrow> evolves A vs vs'"
  by (auto simp: set_dom_non_empty_eq evolves_var_set_dom split: if_splits)

lemma evolves_if_sdne:
  "(if c then set_dom_non_empty vs n d else Inr vs) = Inr vs' \<Longrightarrow> n \<in> A \<Longrightarrow> evolves A vs vs'"
  by (auto simp: set_dom_non_empty_eq evolves_var_set_dom split: if_splits)

lemma sound_after:
  assumes "keeps P P1" "evolves A vs vs1" "sound A P1 vs1 out"
  shows "sound A P vs out"
proof (cases out)
  case (Normal r s)
  then show ?thesis using assms by (auto simp: sound_def intro: keeps_trans evolves_trans)
next
  case (Raised e s)
  have "\<forall>n. n \<notin> A \<longrightarrow> vs1 n = vs n" using assms(2) by (simp add: evolves_def)
  then show ?thesis using Raised assms by (auto simp: sound_def intro: keeps_trans)
next
  case Timeout
  then show ?thesis by (simp add: sound_def)
qed

lemma sound_Raised: "keeps P P' \<Longrightarrow> evolves A vs vs' \<Longrightarrow> sound A P vs (Raised e (P', vs'))"
  by (simp add: sound_def evolves_def)

lemma sound_Normal: "keeps P P' \<Longrightarrow> evolves A vs vs' \<Longrightarrow> sound A P vs (Normal r (P', vs'))"
  by (simp add: sound_def)

subsection \<open>The loops of the comparisons\<close>

lemma sound_sum_case:
  assumes "\<And>e. x = Inl e \<Longrightarrow> sound A P vs (f e)" "\<And>y. x = Inr y \<Longrightarrow> sound A P vs (g y)"
  shows "sound A P vs (case x of Inl e \<Rightarrow> f e | Inr y \<Rightarrow> g y)"
  using assms by (cases x) auto

lemma lt_loop_sound: "sound {a, b} P vs (lt_loop f a b (P, vs))"
proof (induction f arbitrary: P vs)
  case 0
  show ?case by (simp add: sound_def)
next
  case (Suc f)
  define P1 where "P1 = set_last_step P (var_step vs a + var_step vs b)"
  have k: "keeps P P1" by (simp add: P1_def)
  have tail: "sound {a, b} P vs
      (if var_step vs2 a + var_step vs2 b > last_step P1 then lt_loop f a b (P1, vs2)
       else Normal () (P1, vs2))" if "evolves {a, b} vs vs2" for vs2
    using sound_after[OF k that Suc[of P1 vs2]] sound_Normal[OF k that, of "()"] by simp
  show ?case
    unfolding lt_loop.simps Let_def P1_def[symmetric]
  proof (rule sound_sum_case, goal_cases)
    case (1 e)
    show ?case by (rule sound_Raised[OF k evolves_refl])
  next
    case (2 b1)
    show ?case
    proof (rule sound_sum_case, goal_cases)
      case (1 e)
      show ?case by (rule sound_Raised[OF k evolves_refl])
    next
      case (2 b2)
      show ?case
      proof (rule sound_sum_case, goal_cases)
        case (1 e)
        show ?case by (rule sound_Raised[OF k evolves_refl])
      next
        case (2 vs1)
        have e1: "evolves {a, b} vs vs1" by (rule evolves_if_sdne[OF 2]) simp
        show ?case
        proof (rule sound_sum_case, goal_cases)
          case (1 e)
          show ?case by (rule sound_Raised[OF k e1])
        next
          case (2 vs2)
          have e2: "evolves {a, b} vs1 vs2" by (rule evolves_if_sdne[OF 2]) simp
          show ?case by (rule tail[OF evolves_trans[OF e1 e2]])
        qed
      qed
    qed
  qed
qed

lemma lte_loop_sound: "sound {a, b} P vs (lte_loop f a b (P, vs))"
proof (induction f arbitrary: P vs)
  case 0
  show ?case by (simp add: sound_def)
next
  case (Suc f)
  define P1 where "P1 = set_last_step P (var_step vs a + var_step vs b)"
  have k: "keeps P P1" by (simp add: P1_def)
  have tail: "sound {a, b} P vs
      (if var_step vs2 a + var_step vs2 b > last_step P1 then lte_loop f a b (P1, vs2)
       else Normal () (P1, vs2))" if "evolves {a, b} vs vs2" for vs2
    using sound_after[OF k that Suc[of P1 vs2]] sound_Normal[OF k that, of "()"] by simp
  show ?case
    unfolding lte_loop.simps Let_def P1_def[symmetric]
  proof (rule sound_sum_case, goal_cases)
    case (1 e)
    show ?case by (rule sound_Raised[OF k evolves_refl])
  next
    case (2 b1)
    show ?case
    proof (rule sound_sum_case, goal_cases)
      case (1 e)
      show ?case by (rule sound_Raised[OF k evolves_refl])
    next
      case (2 b2)
      show ?case
      proof (rule sound_sum_case, goal_cases)
        case (1 e)
        show ?case by (rule sound_Raised[OF k evolves_refl])
      next
        case (2 vs1)
        have e1: "evolves {a, b} vs vs1" by (rule evolves_if_sdne[OF 2]) simp
        show ?case
        proof (rule sound_sum_case, goal_cases)
          case (1 e)
          show ?case by (rule sound_Raised[OF k e1])
        next
          case (2 vs2)
          have e2: "evolves {a, b} vs1 vs2" by (rule evolves_if_sdne[OF 2]) simp
          show ?case by (rule tail[OF evolves_trans[OF e1 e2]])
        qed
      qed
    qed
  qed
qed

lemma neq_loop_sound: "sound {a, b} P vs (neq_loop f a b (P, vs))"
proof (induction f arbitrary: P vs)
  case 0
  show ?case by (simp add: sound_def)
next
  case (Suc f)
  define P1 where "P1 = set_last_step P (var_step vs a + var_step vs b)"
  have k: "keeps P P1" by (simp add: P1_def)
  have tail: "sound {a, b} P vs
      (if var_step vs2 a + var_step vs2 b > last_step P1 then neq_loop f a b (P1, vs2)
       else Normal () (P1, vs2))" if "evolves {a, b} vs vs2" for vs2
    using sound_after[OF k that Suc[of P1 vs2]] sound_Normal[OF k that, of "()"] by simp
  show ?case
    unfolding neq_loop.simps Let_def P1_def[symmetric]
  proof (rule sound_sum_case, goal_cases)
    case (1 e)
    show ?case by (rule sound_Raised[OF k evolves_refl])
  next
    case (2 b1)
    show ?case
    proof (rule sound_sum_case, goal_cases)
      case (1 e)
      show ?case by (rule sound_Raised[OF k evolves_refl])
    next
      case (2 b2)
      show ?case
      proof (rule sound_sum_case, goal_cases)
        case (1 e)
        show ?case by (rule sound_Raised[OF k evolves_refl])
      next
        case (2 vs1)
        have e1: "evolves {a, b} vs vs1" by (rule evolves_if_sdne[OF 2]) simp
        show ?case
        proof (rule sound_sum_case, goal_cases)
          case (1 e)
          show ?case by (rule sound_Raised[OF k e1])
        next
          case (2 vs2)
          have e2: "evolves {a, b} vs1 vs2" by (rule evolves_if_sdne[OF 2]) simp
          show ?case by (rule tail[OF evolves_trans[OF e1 e2]])
        qed
      qed
    qed
  qed
qed

subsection \<open>The step functions behind their gates\<close>

lemma wf_set_last_step [simp]: "wf_propagator (set_last_step P n) = wf_propagator P"
  by (rule wf_propagator_cong) simp_all

lemma wf_set_solved [simp]: "wf_propagator (set_solved P b) = wf_propagator P"
  by (rule wf_propagator_cong) simp_all

lemma keeps_sls_left [simp]: "keeps (set_last_step P n) Q = keeps P Q"
  by (simp add: keeps_def)

lemma keeps_sls_right [simp]: "keeps P (set_last_step Q n) = keeps P Q"
  by (simp add: keeps_def)

lemma keeps_solved_left [simp]: "keeps (set_solved P b) Q = keeps P Q"
  by (simp add: keeps_def)

lemma keeps_solved_right [simp]: "keeps P (set_solved Q b) = keeps P Q"
  by (simp add: keeps_def)

lemma sound_sls [simp]: "sound A (set_last_step P n) vs out = sound A P vs out"
  by (cases out) (simp_all add: sound_def)

lemma lt_step_sound:
  assumes "space_var vs P 1 = Some a" "space_var vs P 2 = Some b"
  shows "sound {a, b} P vs (lt_step f P vs)"
  using lt_loop_sound[of a b "set_last_step P (var_step vs a + var_step vs b)" vs f]
  unfolding lt_step_def assms
  by (auto simp: sound_def Let_def split: sum.splits outcome.splits)

lemma lt_step_gated:
  assumes "space_var vs P 1 = Some a" "space_var vs P 2 = Some b"
  shows "gated [a, b] 0 P vs (lt_step f P vs)"
  using lt_loop_sound[of a b "set_last_step P (var_step vs a + var_step vs b)" vs f]
  unfolding lt_step_def assms
  by (auto simp: gated_def sound_def Let_def revisions_def split: sum.splits outcome.splits)

lemma lte_step_sound:
  assumes "space_var vs P 1 = Some a" "space_var vs P 2 = Some b"
  shows "sound {a, b} P vs (lte_step f P vs)"
  using lte_loop_sound[of a b "set_last_step P (var_step vs a + var_step vs b)" vs f]
  unfolding lte_step_def assms
  by (auto simp: sound_def Let_def split: sum.splits outcome.splits)

lemma lte_step_gated:
  assumes "space_var vs P 1 = Some a" "space_var vs P 2 = Some b"
  shows "gated [a, b] 0 P vs (lte_step f P vs)"
  using lte_loop_sound[of a b "set_last_step P (var_step vs a + var_step vs b)" vs f]
  unfolding lte_step_def assms
  by (auto simp: gated_def sound_def Let_def revisions_def split: sum.splits outcome.splits)

lemma neq_step_sound:
  assumes "space_var vs P 1 = Some a" "space_var vs P 2 = Some b"
  shows "sound {a, b} P vs (neq_step f P vs)"
  using neq_loop_sound[of a b "set_last_step P (var_step vs a + var_step vs b)" vs f]
  unfolding neq_step_def assms
  by (auto simp: sound_def Let_def split: sum.splits outcome.splits)

lemma neq_step_gated:
  assumes "space_var vs P 1 = Some a" "space_var vs P 2 = Some b"
  shows "gated [a, b] 0 P vs (neq_step f P vs)"
  using neq_loop_sound[of a b "set_last_step P (var_step vs a + var_step vs b)" vs f]
  unfolding neq_step_def assms
  by (auto simp: gated_def sound_def Let_def revisions_def split: sum.splits outcome.splits)

lemma evolves_two:
  "a \<in> A \<Longrightarrow> b \<in> A \<Longrightarrow> evolves A vs (var_set_dom (var_set_dom vs a d) b d')"
  by (rule evolves_trans[OF evolves_var_set_dom evolves_var_set_dom])

lemma eq_step_sound:
  assumes "space_var vs P 1 = Some a" "space_var vs P 2 = Some b"
  shows "sound {a, b} P vs (eq_step P vs)"
  unfolding eq_step_def assms
  by (auto simp: sound_def Let_def domain_non_empty_def evolves_two)

lemma eq_step_gated:
  assumes "space_var vs P 1 = Some a" "space_var vs P 2 = Some b"
  shows "gated [a, b] 0 P vs (eq_step P vs)"
  unfolding eq_step_def assms
  by (auto simp: gated_def Let_def revisions_def domain_non_empty_def evolves_two)

lemma ring_sum_step_gated:
  assumes "space_var vs P 1 = Some a" "space_var vs P 2 = Some b" "space_var vs P 3 = Some c"
  shows "gated [a, b, c] (last_step P - revisions vs [a, b, c]) P vs (ring_sum_step plusop P vs)"
  unfolding ring_sum_step_def assms
  by (auto simp: gated_def Let_def revisions_def set_dom_non_empty_eq evolves_var_set_dom)

lemma ring_v1_step_gated:
  assumes "space_var vs P 1 = Some a" "space_var vs P 2 = Some b" "space_var vs P 3 = Some c"
  shows "gated [a, b, c] (last_step P - revisions vs [a, b, c]) P vs (ring_v1_step minusop P vs)"
  unfolding ring_v1_step_def assms
  by (auto simp: gated_def Let_def revisions_def set_dom_non_empty_eq evolves_var_set_dom)

lemma ring_v2_step_gated:
  assumes "space_var vs P 1 = Some a" "space_var vs P 2 = Some b" "space_var vs P 3 = Some c"
  shows "gated [a, b, c] (last_step P - revisions vs [a, b, c]) P vs (ring_v2_step minusop P vs)"
  unfolding ring_v2_step_def assms
  by (auto simp: gated_def Let_def revisions_def set_dom_non_empty_eq evolves_var_set_dom)

lemma scale_prod_step_gated:
  assumes "space_var vs P 1 = Some a" "space_var vs P 2 = Some b"
  shows "gated [a, b] 0 P vs (scale_prod_step factor P vs)"
  unfolding scale_prod_step_def assms
  by (auto simp: gated_def Let_def revisions_def set_dom_non_empty_eq evolves_var_set_dom
        split: sum.splits)

lemma scale_v_step_gated:
  assumes "space_var vs P 1 = Some a" "space_var vs P 2 = Some b"
  shows "gated [a, b] 0 P vs (scale_v_step factor P vs)"
  unfolding scale_v_step_def assms
  by (auto simp: gated_def Let_def revisions_def set_dom_non_empty_eq evolves_var_set_dom)

subsection \<open>Variables bound to a propagator\<close>

lemma space_var_nth:
  "space_var vs P k = Some n \<Longrightarrow> k - 1 < length (space_p P) \<and> space_p P ! (k - 1) = Some n"
  by (auto simp: space_var_def split: if_splits option.splits)

lemma space_var_names:
  "space_var vs P k = Some n \<Longrightarrow> n \<in> names_of (space_p P)"
  using space_var_nth[of vs P k n] nth_mem[of "k - 1" "space_p P"] by (simp add: names_of_eq)

lemma names_take3:
  assumes "bound_ok P"
    and "space_var vs P 1 = Some a" "space_var vs P 2 = Some b" "space_var vs P 3 = Some c"
  shows "set (take 3 (allvars P)) = {a, b, c}"
proof -
  obtain x y z rest where sp: "space_p P = x # y # z # rest"
    using space_var_nth[OF assms(4)]
    by (cases "space_p P"; cases "tl (space_p P)"; cases "tl (tl (space_p P))") auto
  have xyz: "x = Some a" "y = Some b" "z = Some c"
    using space_var_nth[OF assms(2)] space_var_nth[OF assms(3)] space_var_nth[OF assms(4)]
    by (simp_all add: sp)
  obtain rest' where "allvars P = a # b # c # rest'"
    using assms(1) unfolding bound_ok_def sp xyz by (auto simp: list_all2_Cons1)
  then show ?thesis by auto
qed

lemma sound_mono: "sound A P vs out \<Longrightarrow> A \<subseteq> B \<Longrightarrow> sound B P vs out"
  by (cases out) (auto simp: sound_def intro: evolves_mono)

lemma nsound_after:
  assumes "keeps P P1" "evolves A vs vs1" "nsound A P1 vs1 out"
  shows "nsound A P vs out"
  using assms by (cases out) (auto simp: nsound_def intro: keeps_trans evolves_trans)

lemma nsound_Normal: "keeps P P' \<Longrightarrow> evolves A vs vs' \<Longrightarrow> nsound A P vs (Normal r (P', vs'))"
  by (simp add: nsound_def)

lemma nsound_bind:
  assumes "nsound A R vs x"
    and "\<And>u R1 vs1. x = Normal u (R1, vs1) \<Longrightarrow> keeps R R1 \<Longrightarrow> evolves A vs vs1
           \<Longrightarrow> nsound A R vs (g u (R1, vs1))"
  shows "nsound A R vs (case x of Timeout \<Rightarrow> Timeout | Raised e s \<Rightarrow> Raised e s
                        | Normal u s \<Rightarrow> g u s)"
proof (cases x)
  case (Normal u s)
  then show ?thesis using assms by (cases s) (auto simp: nsound_def)
qed (simp_all add: nsound_def)

subsection \<open>Saving and restoring\<close>

lemma save_vars_loop_facts:
  "save_vars_loop vs bs = Inr saved \<Longrightarrow>
     fst ` set saved = names_of bs \<and> (\<forall>nv \<in> set saved. vs (fst nv) = Some (snd nv))"
proof (induction bs arbitrary: saved)
  case Nil
  then show ?case by (simp add: names_of_eq)
next
  case (Cons b bs)
  from Cons.prems obtain n v rest where
    b: "b = Some n" and v: "vs n = Some v" and r: "save_vars_loop vs bs = Inr rest"
    and s: "saved = (n, v) # rest"
    by (auto split: option.splits sum.splits)
  have "fst ` set rest = names_of bs" "\<forall>nv \<in> set rest. vs (fst nv) = Some (snd nv)"
    using Cons.IH[OF r] by simp_all
  then show ?case unfolding s b using v by (auto simp: names_of_eq)
qed

lemma fold_restore:
  assumes "\<forall>nv \<in> set saved. vs (fst nv) = Some (snd nv)"
  shows "fold (\<lambda>nv m. m(fst nv \<mapsto> snd nv)) saved vs' n
           = (if n \<in> fst ` set saved then vs n else vs' n)"
  using assms
proof (induction saved arbitrary: vs')
  case Nil
  show ?case by simp
next
  case (Cons x saved)
  have p: "\<forall>nv \<in> set saved. vs (fst nv) = Some (snd nv)" and px: "vs (fst x) = Some (snd x)"
    using Cons.prems by simp_all
  note ih = Cons.IH[OF p, of "vs'(fst x \<mapsto> snd x)"]
  show ?case
    unfolding fold.simps comp_apply ih using px by auto
qed

lemma restore_vars_exact:
  assumes "save_vars vs q = Inr vss" "\<forall>n. n \<notin> names_of (space_p q) \<longrightarrow> vs' n = vs n"
  shows "restore_vars vss (q', vs') = (set_last_step q' (snd vss), vs)"
proof -
  obtain saved where sv: "save_vars_loop vs (space_p q) = Inr saved" and f: "fst vss = saved"
    using assms(1) by (auto simp: save_vars_def split: sum.splits)
  note facts = save_vars_loop_facts[OF sv]
  have "fold (\<lambda>nv m. m(fst nv \<mapsto> snd nv)) saved vs' n = vs n" for n
    using fold_restore[of saved vs vs' n] facts assms(2) by auto
  then have "fold (\<lambda>nv m. m(fst nv \<mapsto> snd nv)) saved vs' = vs" by (rule ext)
  then show ?thesis by (simp add: restore_vars_def f)
qed

subsection \<open>The private propagators of a reified propagator\<close>

lemma set_inner_sel [simp]:
  "last_step (set_inner w R q) = last_step R"
  "allvars (set_inner w R q) = allvars R"
  "step_fn (set_inner w R q) = step_fn R"
  "space_p (set_inner w R q) = space_p R"
  "inner_of w (set_inner w R q) = Some q"
  by (cases w; simp add: set_inner_def set_p_inner_def set_np_inner_def inner_of_def)+

lemma set_inner_other:
  "w' \<noteq> w \<Longrightarrow> inner_of w' (set_inner w R q) = inner_of w' R"
  by (cases w; cases w'; simp add: set_inner_def set_p_inner_def set_np_inner_def inner_of_def)

lemma wf_propagator_inner:
  "wf_propagator P =
     (case step_fn P of
        Reified_step pos neg \<Rightarrow>
          bound_ok P
          \<and> captured_ok (set (take 3 (allvars P))) pos
          \<and> captured_ok (set (take 3 (allvars P))) neg
          \<and> inner_ok (set (take 3 (allvars P))) (inner_of Positive P)
          \<and> inner_ok (set (take 3 (allvars P))) (inner_of Negative P)
      | _ \<Rightarrow> True)"
  unfolding wf_propagator_def inner_of_def which.case by (rule refl)

lemma wf_inner_of:
  assumes "wf_propagator R" "step_fn R = Reified_step pos neg" "inner_of w R = Some q"
  shows "names_of (space_p q) \<subseteq> set (take 3 (allvars R))" "is_comparison (step_fn q)"
  using assms by (cases w; simp add: wf_propagator_inner inner_ok_def)+

lemma keeps_set_inner:
  assumes "wf_propagator R \<Longrightarrow> inner_ok (set (take 3 (allvars R))) (Some q')"
  shows "keeps R (set_inner w R q')"
proof -
  have "wf_propagator (set_inner w R q')" if wf: "wf_propagator R"
  proof (cases "step_fn R")
    case (Reified_step pos neg)
    have o: "inner_of w' (set_inner w R q') = (if w' = w then Some q' else inner_of w' R)" for w'
      by (simp add: set_inner_other)
    have bo: "bound_ok (set_inner w R q') = bound_ok R" by (simp add: bound_ok_def)
    show ?thesis
      using wf assms[OF wf] unfolding wf_propagator_inner[of R] wf_propagator_inner[of "set_inner w R q'"]
      by (simp add: Reified_step o bo del: set_inner_sel(5))
  qed (simp_all add: wf_propagator_inner)
  then show ?thesis by (simp add: keeps_def)
qed

lemma inner_ok_keeps:
  assumes "inner_ok A (Some q)" "keeps q q'"
  shows "inner_ok A (Some q')"
  using assms by (simp add: inner_ok_def keeps_def)

subsection \<open>The step function of a reified propagator\<close>

lemma reified_decided_nsound:
  assumes rs: "run_sound run" and wf: "wf_propagator R"
    and rf: "step_fn R = Reified_step pos neg" and A: "set (take 3 (allvars R)) = A"
  shows "nsound A R vs (reified_decided run w (R, vs))"
proof (cases "inner_of w R")
  case None
  then show ?thesis by (simp add: reified_decided_def nsound_def)
next
  case (Some q)
  note qi = wf_inner_of[OF wf rf Some]
  have io: "inner_ok A (Some q)" using qi A by (simp add: inner_ok_def)
  have s: "sound (names_of (space_p q)) q vs (run q vs)"
    using rs qi(2) by (simp add: run_sound_def)
  show ?thesis
  proof (cases "run q vs")
    case (Normal r s')
    obtain q' vs' where s': "s' = (q', vs')" by (cases s')
    have kq: "keeps q q'" and ev: "evolves (names_of (space_p q)) vs vs'"
      using s by (simp_all add: Normal s' sound_def)
    have k: "keeps R (set_inner w R q')"
      by (rule keeps_set_inner) (use inner_ok_keeps[OF io kq] A in simp)
    have e: "evolves A vs vs'" using evolves_mono[OF ev] qi(1) A by simp
    show ?thesis
      using k e by (simp add: reified_decided_def Some Normal s' nsound_def split: sum.splits)
  next
    case (Raised e s')
    then show ?thesis by (simp add: reified_decided_def Some nsound_def split: prod.splits)
  next
    case Timeout
    then show ?thesis by (simp add: reified_decided_def Some nsound_def)
  qed
qed

lemma reified_speculate_nsound:
  assumes rs: "run_sound run" and wf: "wf_propagator R"
    and rf: "step_fn R = Reified_step pos neg" and A: "set (take 3 (allvars R)) = A"
    and b: "b \<in> A"
  shows "nsound A R vs (reified_speculate run w b forced (R, vs))"
proof (cases "inner_of w R")
  case None
  then show ?thesis by (simp add: reified_speculate_def nsound_def)
next
  case (Some q)
  note qi = wf_inner_of[OF wf rf Some]
  have io: "inner_ok A (Some q)" using qi A by (simp add: inner_ok_def)
  have s: "sound (names_of (space_p q)) q vs (run q vs)"
    using rs qi(2) by (simp add: run_sound_def)
  show ?thesis
  proof (cases "save_vars vs q")
    case (Inl e)
    then show ?thesis by (simp add: reified_speculate_def Some nsound_def)
  next
    case (Inr vss)
    have restored: "restore_vars vss (q', vs') = (set_last_step q' (snd vss), vs)
                \<and> keeps R (set_inner w R (set_last_step q' (snd vss)))"
      if "keeps q q'" "\<forall>n. n \<notin> names_of (space_p q) \<longrightarrow> vs' n = vs n" for q' vs'
    proof
      show "restore_vars vss (q', vs') = (set_last_step q' (snd vss), vs)"
        by (rule restore_vars_exact[OF Inr that(2)])
      have "keeps q (set_last_step q' (snd vss))" using that(1) by simp
      from inner_ok_keeps[OF io this]
      show "keeps R (set_inner w R (set_last_step q' (snd vss)))"
        by (intro keeps_set_inner) (simp add: A)
    qed
    show ?thesis
    proof (cases "run q vs")
      case (Normal r s')
      obtain q' vs' where s': "s' = (q', vs')" by (cases s')
      have "keeps q q'" "\<forall>n. n \<notin> names_of (space_p q) \<longrightarrow> vs' n = vs n"
        using s by (simp_all add: Normal s' sound_def evolves_def)
      from restored[OF this] show ?thesis
        by (simp add: reified_speculate_def Some Inr Normal s' nsound_def)
    next
      case (Raised e s')
      obtain q' vs' where s': "s' = (q', vs')" by (cases s')
      have "keeps q q'" "\<forall>n. n \<notin> names_of (space_p q) \<longrightarrow> vs' n = vs n"
        using s by (simp_all add: Raised s' sound_def)
      from restored[OF this] show ?thesis
        by (auto simp: reified_speculate_def Some Inr Raised s' nsound_def Let_def
              split: sum.splits intro: evolves_sdne[OF _ b])
    next
      case Timeout
      then show ?thesis by (simp add: reified_speculate_def Some Inr nsound_def)
    qed
  qed
qed

lemma nsound_sls [simp]: "nsound A (set_last_step P n) vs out = nsound A P vs out"
  by (cases out) (simp_all add: nsound_def)

lemma reified_loop_nsound:
  assumes rs: "run_sound run" and wf: "wf_propagator R"
    and rf: "step_fn R = Reified_step pos neg" and A: "set (take 3 (allvars R)) = A"
    and b: "b \<in> A"
  shows "nsound A R vs (reified_loop f run v1 v2 b (R, vs))"
  using wf rf A
proof (induction f arbitrary: R vs)
  case 0
  show ?case by (simp add: nsound_def)
next
  case (Suc f)
  define R0 where "R0 = set_last_step R (var_step vs v1 + var_step vs v2 + var_step vs b)"
  have good: "wf_propagator R1 \<and> step_fn R1 = Reified_step pos neg
              \<and> set (take 3 (allvars R1)) = A" if "keeps R0 R1" for R1
    using that Suc.prems by (simp add: keeps_def R0_def)
  have here: "nsound A R0 vs (Normal () (R1, vs1))"
    if "keeps R0 R1" "evolves A vs vs1" for R1 vs1
    using that by (simp add: nsound_def)
  have dec: "nsound A R0 vs
               (if c then reified_decided run w (R1, vs1) else Normal () (R1, vs1))"
    if "keeps R0 R1" "evolves A vs vs1" for R1 vs1 c w
  proof -
    have "nsound A R1 vs1 (reified_decided run w (R1, vs1))"
      using good[OF that(1)] by (intro reified_decided_nsound[OF rs, of R1 pos neg]) simp_all
    then have "nsound A R0 vs (reified_decided run w (R1, vs1))"
      by (rule nsound_after[OF that])
    then show ?thesis using here[OF that] by simp
  qed
  have spec: "nsound A R0 vs (reified_speculate run w b forced (R1, vs1))"
    if "keeps R0 R1" "evolves A vs vs1" for R1 vs1 w forced
  proof -
    have "nsound A R1 vs1 (reified_speculate run w b forced (R1, vs1))"
      using good[OF that(1)]
      by (intro reified_speculate_nsound[OF rs _ _ _ b, of R1 pos neg]) simp_all
    then show ?thesis by (rule nsound_after[OF that])
  qed
  have tail: "nsound A R0 vs
      (if var_step vs4 v1 + var_step vs4 v2 + var_step vs4 b > last_step R4
       then reified_loop f run v1 v2 b (R4, vs4) else Normal () (R4, vs4))"
    if "keeps R0 R4" "evolves A vs vs4" for R4 vs4
  proof -
    have "nsound A R4 vs4 (reified_loop f run v1 v2 b (R4, vs4))"
      using good[OF that(1)] by (intro Suc.IH) simp_all
    then have "nsound A R0 vs (reified_loop f run v1 v2 b (R4, vs4))"
      by (rule nsound_after[OF that])
    then show ?thesis using here[OF that] by simp
  qed
  have "nsound A R0 vs (reified_loop (Suc f) run v1 v2 b (R, vs))"
  proof (cases "var_dom vs b")
    case Nil
    then show ?thesis by (simp add: nsound_def)
  next
    case (Cons bdom rest)
    show ?thesis
      unfolding reified_loop.simps Let_def R0_def[symmetric] Cons list.case
    proof (rule nsound_bind, goal_cases)
      case 1
      show ?case by (rule dec[OF keeps_refl evolves_refl])
    next
      case (2 u R1 vs1)
      show ?case
      proof (rule nsound_bind, goal_cases)
        case 1
        show ?case by (rule dec[OF 2(2,3)])
      next
        case c2: (2 u R2 vs2)
        show ?case
        proof (rule nsound_bind, goal_cases)
          case 1
          show ?case using spec[OF c2(2,3)] here[OF c2(2,3)] by simp
        next
          case c3: (2 u R3 vs3)
          show ?case
          proof (rule nsound_bind, goal_cases)
            case 1
            show ?case using spec[OF c3(2,3)] here[OF c3(2,3)]
              by (simp add: nsound_def split: list.splits)
          next
            case c4: (2 u R4 vs4)
            show ?case unfolding prod.case by (rule tail[OF c4(2,3)])
          qed
        qed
      qed
    qed
  qed
  then show ?case by (simp add: R0_def)
qed

lemma names_of_bind_vars: "names_of (bind_vars vs ns) \<subseteq> set ns"
  by (auto simp: names_of_eq bind_vars_def split: if_splits)

lemma ensure_inner_keeps:
  assumes "ensure_inner vs w c R = Inr R1" "step_fn R = Reified_step pos neg"
    "c = pos \<or> c = neg"
  shows "keeps R R1"
proof (cases "inner_of w R")
  case (Some q)
  then show ?thesis using assms(1) by (simp add: ensure_inner_def)
next
  case None
  then obtain t where c: "c = Some t" and R1: "R1 = set_inner w R (initprop_in vs t)"
    using assms(1) by (auto simp: ensure_inner_def split: option.splits)
  show ?thesis unfolding R1
  proof (rule keeps_set_inner)
    assume "wf_propagator R"
    then have "captured_ok (set (take 3 (allvars R))) c"
      using assms(2,3) by (auto simp: wf_propagator_def)
    then show "inner_ok (set (take 3 (allvars R))) (Some (initprop_in vs t))"
      using names_of_bind_vars[of vs "fst t"]
      by (auto simp: captured_ok_def c inner_ok_def initprop_in_def)
  qed
qed

lemma ensure_inner_last_step:
  "ensure_inner vs w c R = Inr R1 \<Longrightarrow> last_step R1 = last_step R"
  by (auto simp: ensure_inner_def split: option.splits)

lemma reified_step_gated:
  assumes rs: "run_sound run" and wf: "wf_propagator R"
    and rf: "step_fn R = Reified_step pos neg"
    and sv: "space_var vs R 1 = Some a" "space_var vs R 2 = Some b" "space_var vs R 3 = Some c"
  shows "gated [a, b, c] 0 R vs (reified_step f run pos neg R vs)"
proof (cases "revisions vs [a, b, c] > last_step R")
  case False
  then show ?thesis unfolding reified_step_def sv by (simp add: gated_def revisions_def)
next
  case True
  then have op: "var_step vs a + var_step vs b + var_step vs c > last_step R"
    by (simp add: revisions_def)
  have "bound_ok R" using wf rf by (simp add: wf_propagator_def)
  then have A: "set (take 3 (allvars R)) = {a, b, c}" by (rule names_take3[OF _ sv])
  note rsd = reified_step_def[of f run pos neg R vs, unfolded sv prod.case option.case]
  show ?thesis
  proof (cases "ensure_inner vs Positive pos R")
    case (Inl e)
    then show ?thesis using True op by (simp add: gated_def rsd)
  next
    case R1: (Inr R1)
    have k1: "keeps R R1" by (rule ensure_inner_keeps[OF R1 rf]) simp
    then have rf1: "step_fn R1 = Reified_step pos neg" using rf by (simp add: keeps_def)
    show ?thesis
    proof (cases "ensure_inner vs Negative neg R1")
      case (Inl e)
      then show ?thesis using True op by (simp add: gated_def rsd R1)
    next
      case R2: (Inr R2)
      have k2: "keeps R R2"
        by (rule keeps_trans[OF k1 ensure_inner_keeps[OF R2 rf1]]) simp
      have g2: "wf_propagator R2" "step_fn R2 = Reified_step pos neg"
        "set (take 3 (allvars R2)) = {a, b, c}"
        using k2 wf rf A by (simp_all add: keeps_def)
      have L: "nsound {a, b, c} R2 vs (reified_loop f run a b c (R2, vs))"
        by (rule reified_loop_nsound[OF rs g2]) simp
      show ?thesis
      proof (cases "reified_loop f run a b c (R2, vs)")
        case (Normal u s)
        obtain R3 vs3 where s: "s = (R3, vs3)" by (cases s)
        have "keeps R R3" "evolves {a, b, c} vs vs3"
          using L keeps_trans[OF k2] by (simp_all add: Normal s nsound_def)
        then show ?thesis
          using True op
          by (simp add: gated_def rsd R1 R2 Normal s Let_def revisions_def)
      next
        case (Raised e s)
        then show ?thesis using True op by (simp add: gated_def rsd R1 R2)
      next
        case Timeout
        then show ?thesis using True op by (simp add: gated_def rsd R1 R2)
      qed
    qed
  qed
qed

lemma step_comparison_sound:
  assumes "is_comparison (step_fn q)"
  shows "sound (names_of (space_p q)) q vs (step f q vs)"
proof (cases f)
  case 0
  then show ?thesis by (simp add: sound_def)
next
  case (Suc f0)
  show ?thesis
  proof (cases "\<exists>a b. space_var vs q 1 = Some a \<and> space_var vs q 2 = Some b")
    case True
    then obtain a b where sv: "space_var vs q 1 = Some a" "space_var vs q 2 = Some b" by blast
    have sub: "{a, b} \<subseteq> names_of (space_p q)"
      using space_var_names[OF sv(1)] space_var_names[OF sv(2)] by simp
    have "sound {a, b} q vs (step f q vs)"
      using assms eq_step_sound[OF sv] lt_step_sound[OF sv] lte_step_sound[OF sv]
        neq_step_sound[OF sv]
      by (auto simp: is_comparison_iff Suc)
    then show ?thesis using sub by (rule sound_mono)
  next
    case False
    then have "step f q vs = Raised TypeError (q, vs)"
      using assms
      by (auto simp: is_comparison_iff Suc eq_step_def lt_step_def lte_step_def neq_step_def
            split: option.splits)
    then show ?thesis by (simp add: sound_def)
  qed
qed

lemma run_sound_step: "run_sound (step f)"
  by (simp add: run_sound_def step_comparison_sound)

lemma space_var_keeps: "keeps P Q \<Longrightarrow> space_var vs Q k = space_var vs P k"
  by (simp add: keeps_def space_var_def)

lemma gated_quiet:
  assumes 1: "gated ns (cf P) P vs (Normal r (P', vs'))"
    and 2: "\<And>Q. keeps P Q \<Longrightarrow> gated ns (cf Q) Q vs (S Q)"
    and 3: "\<And>Q. cf Q = 0 \<or> cf Q = last_step Q - revisions vs ns"
  shows "0 \<le> r \<and> keeps P P' \<and> (r = 0 \<longrightarrow> vs' = vs \<and> S P' = Normal 0 (P', vs))"
proof (cases "revisions vs ns > last_step P")
  case True
  then have k: "keeps P P'" and e: "evolves (set ns) vs vs'"
    and l: "last_step P' = revisions vs' ns" and r: "r = revisions vs' ns - revisions vs ns"
    using 1 by (simp_all add: gated_def)
  have r0: "0 \<le> r" using revisions_le[OF e, of ns] r by simp
  have "vs' = vs \<and> S P' = Normal 0 (P', vs)" if "r = 0"
  proof -
    have eq: "revisions vs' ns = revisions vs ns" using that r by simp
    have v: "vs' = vs" by (rule evolves_quiet[OF e eq])
    have "S P' = Normal (cf P') (P', vs)" using 2[OF k] l by (simp add: gated_def v)
    moreover have "cf P' = 0" using 3[of P'] l v by auto
    ultimately show ?thesis using v by simp
  qed
  then show ?thesis using r0 k by blast
next
  case False
  then have eq: "r = cf P" "P' = P" "vs' = vs" using 1 by (simp_all add: gated_def)
  have "S P = Normal (cf P) (P, vs)" using 2[OF keeps_refl] False by (simp add: gated_def)
  moreover have "0 \<le> cf P" using 3[of P] False by auto
  ultimately show ?thesis using eq by simp
qed

subsection \<open>Every step function is gated\<close>

lemma binary_kind:
  assumes K: "\<And>Q g. keeps P Q \<Longrightarrow> step (Suc g) Q vs = K g Q vs"
    and G: "\<And>Q g a b. space_var vs Q 1 = Some a \<Longrightarrow> space_var vs Q 2 = Some b
              \<Longrightarrow> gated [a, b] 0 Q vs (K g Q vs)"
    and U: "\<And>g. \<not> (\<exists>a b. space_var vs P 1 = Some a \<and> space_var vs P 2 = Some b)
              \<Longrightarrow> K g P vs = Raised TypeError (P, vs)"
  shows "(\<exists>ns cf. (\<forall>Q. cf Q = 0 \<or> cf Q = last_step Q - revisions vs ns)
            \<and> (\<forall>Q g. keeps P Q \<longrightarrow> gated ns (cf Q) Q vs (step (Suc g) Q vs)))
         \<or> (\<forall>g. step (Suc g) P vs = Raised TypeError (P, vs))"
proof (cases "\<exists>a b. space_var vs P 1 = Some a \<and> space_var vs P 2 = Some b")
  case True
  then obtain a b where sv: "space_var vs P 1 = Some a" "space_var vs P 2 = Some b" by blast
  have "gated [a, b] 0 Q vs (step (Suc g) Q vs)" if "keeps P Q" for Q g
    unfolding K[OF that] by (rule G) (simp_all only: space_var_keeps[OF that] sv)
  then show ?thesis
    by (intro disjI1 exI[of _ "[a, b]"] exI[of _ "\<lambda>Q. 0"]) simp
next
  case False
  have "step (Suc g) P vs = Raised TypeError (P, vs)" for g
    unfolding K[OF keeps_refl] by (rule U[OF False])
  then show ?thesis by blast
qed

lemma ternary_kind:
  assumes K: "\<And>Q g. keeps P Q \<Longrightarrow> step (Suc g) Q vs = K g Q vs"
    and G: "\<And>Q g a b c. keeps P Q \<Longrightarrow> space_var vs Q 1 = Some a \<Longrightarrow> space_var vs Q 2 = Some b
              \<Longrightarrow> space_var vs Q 3 = Some c \<Longrightarrow> gated [a, b, c] (cf [a, b, c] Q) Q vs (K g Q vs)"
    and C: "\<And>ns Q. cf ns Q = 0 \<or> cf ns Q = last_step Q - revisions vs ns"
    and U: "\<And>g. \<not> (\<exists>a b c. space_var vs P 1 = Some a \<and> space_var vs P 2 = Some b
                      \<and> space_var vs P 3 = Some c)
              \<Longrightarrow> K g P vs = Raised TypeError (P, vs)"
  shows "(\<exists>ns cf. (\<forall>Q. cf Q = 0 \<or> cf Q = last_step Q - revisions vs ns)
            \<and> (\<forall>Q g. keeps P Q \<longrightarrow> gated ns (cf Q) Q vs (step (Suc g) Q vs)))
         \<or> (\<forall>g. step (Suc g) P vs = Raised TypeError (P, vs))"
proof (cases "\<exists>a b c. space_var vs P 1 = Some a \<and> space_var vs P 2 = Some b
                \<and> space_var vs P 3 = Some c")
  case True
  then obtain a b c where sv: "space_var vs P 1 = Some a" "space_var vs P 2 = Some b"
    "space_var vs P 3 = Some c" by blast
  have "gated [a, b, c] (cf [a, b, c] Q) Q vs (step (Suc g) Q vs)" if "keeps P Q" for Q g
    unfolding K[OF that] by (rule G[OF that]) (simp_all only: space_var_keeps[OF that] sv)
  then show ?thesis
    using C by (intro disjI1 exI[of _ "[a, b, c]"] exI[of _ "cf [a, b, c]"]) simp
next
  case False
  have "step (Suc g) P vs = Raised TypeError (P, vs)" for g
    unfolding K[OF keeps_refl] by (rule U[OF False])
  then show ?thesis by blast
qed

lemma step_kinds:
  assumes wf: "wf_propagator P"
  shows "(\<exists>ns cf. (\<forall>Q. cf Q = 0 \<or> cf Q = last_step Q - revisions vs ns)
            \<and> (\<forall>Q g. keeps P Q \<longrightarrow> gated ns (cf Q) Q vs (step (Suc g) Q vs)))
         \<or> (\<forall>g. step (Suc g) P vs = Raised TypeError (P, vs))"
proof (cases "step_fn P")
  case Eq_step
  show ?thesis
  proof (rule binary_kind[where K="\<lambda>g. eq_step"], goal_cases)
    case (1 Q g)
    then show ?case by (simp add: Eq_step keeps_def)
  next
    case (2 Q g a b)
    then show ?case by (rule eq_step_gated)
  next
    case (3 g)
    then show ?case unfolding eq_step_def by (auto split: option.splits)
  qed
next
  case Lt_step
  show ?thesis
  proof (rule binary_kind[where K="lt_step"], goal_cases)
    case (1 Q g)
    then show ?case by (simp add: Lt_step keeps_def)
  next
    case (2 Q g a b)
    then show ?case by (rule lt_step_gated)
  next
    case (3 g)
    then show ?case unfolding lt_step_def by (auto split: option.splits)
  qed
next
  case Lte_step
  show ?thesis
  proof (rule binary_kind[where K="lte_step"], goal_cases)
    case (1 Q g)
    then show ?case by (simp add: Lte_step keeps_def)
  next
    case (2 Q g a b)
    then show ?case by (rule lte_step_gated)
  next
    case (3 g)
    then show ?case unfolding lte_step_def by (auto split: option.splits)
  qed
next
  case Neq_step
  show ?thesis
  proof (rule binary_kind[where K="neq_step"], goal_cases)
    case (1 Q g)
    then show ?case by (simp add: Neq_step keeps_def)
  next
    case (2 Q g a b)
    then show ?case by (rule neq_step_gated)
  next
    case (3 g)
    then show ?case unfolding neq_step_def by (auto split: option.splits)
  qed
next
  case (Ring_sum_step plusop)
  show ?thesis
  proof (rule ternary_kind[where K="\<lambda>g. ring_sum_step plusop"
          and cf="\<lambda>ns Q. last_step Q - revisions vs ns"], goal_cases)
    case (1 Q g)
    then show ?case by (simp add: Ring_sum_step keeps_def)
  next
    case (2 Q g a b c)
    show ?case by (rule ring_sum_step_gated[OF 2(2-4)])
  next
    case (3 ns Q)
    show ?case by simp
  next
    case (4 g)
    then show ?case unfolding ring_sum_step_def by (auto split: option.splits)
  qed
next
  case (Ring_v1_step minusop)
  show ?thesis
  proof (rule ternary_kind[where K="\<lambda>g. ring_v1_step minusop"
          and cf="\<lambda>ns Q. last_step Q - revisions vs ns"], goal_cases)
    case (1 Q g)
    then show ?case by (simp add: Ring_v1_step keeps_def)
  next
    case (2 Q g a b c)
    show ?case by (rule ring_v1_step_gated[OF 2(2-4)])
  next
    case (3 ns Q)
    show ?case by simp
  next
    case (4 g)
    then show ?case unfolding ring_v1_step_def by (auto split: option.splits)
  qed
next
  case (Ring_v2_step minusop)
  show ?thesis
  proof (rule ternary_kind[where K="\<lambda>g. ring_v2_step minusop"
          and cf="\<lambda>ns Q. last_step Q - revisions vs ns"], goal_cases)
    case (1 Q g)
    then show ?case by (simp add: Ring_v2_step keeps_def)
  next
    case (2 Q g a b c)
    show ?case by (rule ring_v2_step_gated[OF 2(2-4)])
  next
    case (3 ns Q)
    show ?case by simp
  next
    case (4 g)
    then show ?case unfolding ring_v2_step_def by (auto split: option.splits)
  qed
next
  case (Scale_prod_step factor)
  show ?thesis
  proof (rule binary_kind[where K="\<lambda>g. scale_prod_step factor"], goal_cases)
    case (1 Q g)
    then show ?case by (simp add: Scale_prod_step keeps_def)
  next
    case (2 Q g a b)
    then show ?case by (rule scale_prod_step_gated)
  next
    case (3 g)
    then show ?case unfolding scale_prod_step_def by (auto split: option.splits)
  qed
next
  case (Scale_v_step factor)
  show ?thesis
  proof (rule binary_kind[where K="\<lambda>g. scale_v_step factor"], goal_cases)
    case (1 Q g)
    then show ?case by (simp add: Scale_v_step keeps_def)
  next
    case (2 Q g a b)
    then show ?case by (rule scale_v_step_gated)
  next
    case (3 g)
    then show ?case unfolding scale_v_step_def by (auto split: option.splits)
  qed
next
  case (Reified_step pos neg)
  show ?thesis
  proof (rule ternary_kind[where K="\<lambda>g. reified_step g (step g) pos neg"
          and cf="\<lambda>ns Q. 0"], goal_cases)
    case (1 Q g)
    then show ?case by (simp add: Reified_step keeps_def)
  next
    case (2 Q g a b c)
    have "wf_propagator Q" "step_fn Q = Reified_step pos neg"
      using 2(1) wf Reified_step by (simp_all add: keeps_def)
    then show ?case by (rule reified_step_gated[OF run_sound_step _ _ 2(2-4)])
  next
    case (3 ns Q)
    show ?case by simp
  next
    case (4 g)
    then show ?case unfolding reified_step_def by (auto split: option.splits)
  qed
qed

lemma step_quiet:
  assumes "step f P vs = Normal r (P', vs')" "wf_propagator P"
  shows "0 \<le> r \<and> keeps P P'
         \<and> (r = 0 \<longrightarrow> vs' = vs \<and> (\<forall>g. step (Suc g) P' vs = Normal 0 (P', vs)))"
proof -
  obtain f0 where f: "f = Suc f0" using assms(1) by (cases f) auto
  have "step (Suc f0) P vs \<noteq> Raised TypeError (P, vs)"
    using assms(1) unfolding f by (simp del: step.simps)
  then have "\<not> (\<forall>g. step (Suc g) P vs = Raised TypeError (P, vs))" by blast
  with step_kinds[OF assms(2), of vs]
  have "\<exists>ns cf. (\<forall>Q. cf Q = 0 \<or> cf Q = last_step Q - revisions vs ns)
            \<and> (\<forall>Q g. keeps P Q \<longrightarrow> gated ns (cf Q) Q vs (step (Suc g) Q vs))"
    by blast
  then obtain ns cf where C: "\<And>Q. cf Q = 0 \<or> cf Q = last_step Q - revisions vs ns"
    and G: "\<And>Q g. keeps P Q \<Longrightarrow> gated ns (cf Q) Q vs (step (Suc g) Q vs)"
    by blast
  have 1: "gated ns (cf P) P vs (Normal r (P', vs'))"
    using G[OF keeps_refl, of f0] by (simp only: f[symmetric] assms(1))
  have "0 \<le> r \<and> keeps P P' \<and> (r = 0 \<longrightarrow> vs' = vs \<and> step (Suc g) P' vs = Normal 0 (P', vs))"
    for g
    by (rule gated_quiet[where S="\<lambda>Q. step (Suc g) Q vs", OF 1 G C])
  then show ?thesis by blast
qed

subsection \<open>A pass that counts nothing changes nothing\<close>

lemma run_pass_quiet:
  assumes "run_pass f ps vs = Normal c (ps', vs')" "\<forall>P \<in> set ps. wf_propagator P"
  shows "0 \<le> c \<and> (\<forall>P \<in> set ps'. wf_propagator P)
         \<and> (c = 0 \<longrightarrow> vs' = vs
              \<and> (\<forall>P \<in> set ps'. \<forall>g. step (Suc g) P vs = Normal 0 (P, vs)))"
  using assms
proof (induction ps arbitrary: c ps' vs vs')
  case Nil
  then show ?case by simp
next
  case (Cons P ps)
  from Cons.prems(1) obtain r P1 vs1 c1 ps1 where
    s: "step f P vs = Normal r (P1, vs1)"
    and p: "run_pass f ps vs1 = Normal c1 (ps1, vs')"
    and c: "c = r + c1" and ps': "ps' = P1 # ps1"
    by (auto split: outcome.splits)
  have wfP: "wf_propagator P" and wfps: "\<forall>P \<in> set ps. wf_propagator P"
    using Cons.prems(2) by simp_all
  note q = step_quiet[OF s wfP]
  note ih = Cons.IH[OF p wfps]
  have wf1: "wf_propagator P1" using q wfP by (simp add: keeps_def)
  have "vs' = vs \<and> (\<forall>P \<in> set ps'. \<forall>g. step (Suc g) P vs = Normal 0 (P, vs))" if "c = 0"
  proof -
    have "r = 0" "c1 = 0" using that c q ih by linarith+
    then show ?thesis using q ih by (simp add: ps')
  qed
  then show ?case using q ih wf1 by (simp add: c ps')
qed

lemma propagate_loop_stable:
  assumes "propagate_loop n f t S = Normal t' S'" "\<forall>P \<in> set (propagators S). wf_propagator P"
  shows "\<forall>P \<in> set (propagators S'). \<forall>g. step (Suc g) P (vars S') = Normal 0 (P, vars S')"
  using assms
proof (induction n arbitrary: t S)
  case 0
  then show ?case by simp
next
  case (Suc n)
  from Suc.prems(1) obtain c ps vs where
    p: "run_pass f (propagators S) (vars S) = Normal c (ps, vs)"
    by (auto split: outcome.splits)
  note q = run_pass_quiet[OF p Suc.prems(2)]
  define S1 where "S1 = S\<lparr>vars := vs, propagators := ps\<rparr>"
  have r: "(if c > 0 then propagate_loop n f (t + c) S1 else Normal (t + c) S1) = Normal t' S'"
    using Suc.prems(1)
    by (simp only: propagate_loop.simps p outcome.case prod.case Let_def S1_def[symmetric])
  show ?case
  proof (cases "c > 0")
    case True
    then have "propagate_loop n f (t + c) S1 = Normal t' S'" using r by simp
    moreover have "\<forall>P \<in> set (propagators S1). wf_propagator P" using q by (simp add: S1_def)
    ultimately show ?thesis by (rule Suc.IH)
  next
    case False
    then have "c = 0" "S' = S1" using q r by simp_all
    then show ?thesis using q by (simp add: S1_def)
  qed
qed

subsection \<open>The constructors build well-formed propagators\<close>

lemma wf_not_reified:
  "(\<And>pos neg. step_fn P \<noteq> Reified_step pos neg) \<Longrightarrow> wf_propagator P"
  by (cases "step_fn P") (auto simp: wf_propagator_def)

lemma bound_ok_initprop_in: "bound_ok (initprop_in vs t)"
  by (simp add: bound_ok_def initprop_in_def bind_vars_def list_all2_map1 list_all2_same)

lemma pop_newprop: "pop_propagator (newprop S t) = (Some t, S)"
  by (simp add: pop_propagator_def newprop_def initprop_def initprop_in_def)

lemma pop_apply_operator:
  assumes "complementary_operator opname = Some cop"
  shows "\<exists>t. pop_propagator (apply_operator S opname argv) = (Some t, S)
             \<and> set (fst t) \<subseteq> {fst argv, snd argv} \<and> is_comparison (snd (snd t))"
    and "\<exists>t. pop_propagator (apply_operator S cop argv) = (Some t, S)
             \<and> set (fst t) \<subseteq> {fst argv, snd argv} \<and> is_comparison (snd (snd t))"
  using assms
  by (auto simp: complementary_operator_def apply_operator_def eq_c_def neq_def lt_def gt_def
        lte_def gte_def pop_newprop is_comparison_iff split: if_splits)

lemma reified_wf:
  assumes "reified s opname argv boolname = Normal r s'"
    and "\<forall>P \<in> set (propagators (snd s)). wf_propagator P"
  shows "\<forall>P \<in> set (propagators (snd s')). wf_propagator P"
proof -
  have ino: "in_complementary_operator opname"
    using assms(1) unfolding reified_def by (auto split: if_splits)
  obtain cop where cop: "complementary_operator opname = Some cop"
    using assms(1) unfolding reified_def
    by (auto simp: inherited_operator_def split: if_splits option.splits sum.splits)
  define pre where "pre =
     (case boolname of
        Some b \<Rightarrow>
          (case vars (snd s) b of
             None \<Rightarrow> Inl TypeError
           | Some v \<Rightarrow>
               (case constrain v [(0, 1)] of
                  Inl e \<Rightarrow> Inl e
                | Inr v' \<Rightarrow>
                    Inr (b, This, (fst s, (snd s)\<lparr>vars := (vars (snd s))(b \<mapsto> v')\<rparr>))))
      | None \<Rightarrow> (let (t, s') = temp s (Some [(0, 1)]) in Inr (t, Name t, s')))"
  have unf: "reified s opname argv boolname =
     (case pre of
        Inl e \<Rightarrow> Raised e s
      | Inr (boolname', result, s1) \<Rightarrow>
          (let (positive_propagator, S) = pop_propagator (apply_operator (snd s1) opname argv);
               (negative_propagator, S) = pop_propagator (apply_operator S cop argv);
               deps = [fst argv, snd argv, boolname'];
               S = newprop S (deps, deps, Reified_step positive_propagator negative_propagator)
           in Normal result (fst s1, S)))"
    unfolding reified_def cop option.case pre_def using ino by simp
  obtain b res s1 where pre: "pre = Inr (b, res, s1)"
    using assms(1) unfolding unf by (cases pre) auto
  have s1: "propagators (snd s1) = propagators (snd s)"
    using pre unfolding pre_def
    by (auto simp: temp_def Let_def decl1_propagators split: option.splits sum.splits)
  have r: "(let (positive_propagator, S) = pop_propagator (apply_operator (snd s1) opname argv);
                 (negative_propagator, S) = pop_propagator (apply_operator S cop argv);
                 deps = [fst argv, snd argv, b];
                 S = newprop S (deps, deps, Reified_step positive_propagator negative_propagator)
             in Normal res (fst s1, S)) = Normal r s'"
    using assms(1) unfolding unf pre by simp
  obtain t1 where t1: "pop_propagator (apply_operator (snd s1) opname argv) = (Some t1, snd s1)"
    "set (fst t1) \<subseteq> {fst argv, snd argv}" "is_comparison (snd (snd t1))"
    using pop_apply_operator(1)[OF cop] by blast
  obtain t2 where t2: "pop_propagator (apply_operator (snd s1) cop argv) = (Some t2, snd s1)"
    "set (fst t2) \<subseteq> {fst argv, snd argv}" "is_comparison (snd (snd t2))"
    using pop_apply_operator(2)[OF cop] by blast
  define deps where "deps = [fst argv, snd argv, b]"
  define R where "R = initprop (snd s1) (deps, deps, Reified_step (Some t1) (Some t2))"
  have s': "propagators (snd s') = propagators (snd s) @ [R]"
    using r by (auto simp: t1 t2 Let_def newprop_def R_def deps_def s1)
  have "wf_propagator R"
    using t1(2,3) t2(2,3) bound_ok_initprop_in
    by (auto simp: wf_propagator_def R_def initprop_def captured_ok_def inner_ok_def deps_def
          initprop_in_def)
  then show ?thesis using assms(2) by (simp add: s')
qed

subsection \<open>After propagate\<close>

text \<open>
  C6: when \<^verbatim>\<open>propagate\<close> returns normally, calling the step function of
  any propagator of the space returns 0 and leaves every variable (domain and
  revision counter) and the propagator itself as they are. The propagators
  are those the constructors build (\<open>wf_propagator\<close>, which \<open>reified_wf\<close> and
  \<open>wf_not_reified\<close> establish); the call gets at least one unit of fuel.
\<close>

theorem propagate_fixpoint:
  assumes "propagate fuel S = Normal n S'"
    and "\<forall>P \<in> set (propagators S). wf_propagator P"
    and "P \<in> set (propagators S')"
  shows "step (Suc g) P (vars S') = Normal 0 (P, vars S')"
  using propagate_loop_stable[OF assms(1)[unfolded propagate_def] assms(2)] assms(3) by blast

theorem propagate_fixpoint_witness:
  "\<exists>S'. propagate 4 example_space = Normal 2 S'
     \<and> map (var_dom (vars S')) [Sym ''X'', Sym ''Y'', Tmp 2] = [[(0, 2)], [(3, 3)], [(1, 1)]]
     \<and> (\<forall>g. step (Suc g) (propagators S' ! 0) (vars S')
              = Normal 0 (propagators S' ! 0, vars S'))
     \<and> (\<forall>g. step (Suc g) (propagators S' ! 1) (vars S')
              = Normal 0 (propagators S' ! 1, vars S'))"
proof -
  have "(case propagate 4 example_space of
           Normal n S' \<Rightarrow>
             n = 2
             \<and> map (var_dom (vars S')) [Sym ''X'', Sym ''Y'', Tmp 2] = [[(0, 2)], [(3, 3)], [(1, 1)]]
             \<and> length (propagators S') = 2
         | _ \<Rightarrow> False)"
    by code_simp
  then obtain S' where r: "propagate 4 example_space = Normal 2 S'"
    and v: "map (var_dom (vars S')) [Sym ''X'', Sym ''Y'', Tmp 2] = [[(0, 2)], [(3, 3)], [(1, 1)]]"
    and l: "length (propagators S') = 2"
    by (auto split: outcome.splits)
  have wf: "\<forall>P \<in> set (propagators example_space). wf_propagator P"
    by code_simp
  have m: "propagators S' ! 0 \<in> set (propagators S')" "propagators S' ! 1 \<in> set (propagators S')"
    using l by simp_all
  show ?thesis
    by (intro exI[of _ S'] conjI allI r v propagate_fixpoint[OF r wf m(1)]
          propagate_fixpoint[OF r wf m(2)])
qed

end
